theory Spec2Isabelle
  imports Complex_Main
begin

section \<open>Telephasma: the relationship-graph store of \<open>frontend/src/store/useStore.ts\<close>\<close>

text \<open>
  The store keeps the graph as two arrays (\<open>graphData.nodes\<close>, \<open>graphData.links\<close>) and
  the derived list \<open>parsedUsers\<close>. \<open>processScanUpdate\<close> rebuilds two JavaScript
  \<open>Map\<close>s from the arrays, merges one update into them, recomputes \<open>parsedUsers\<close> from
  the maps and writes all three back. The scan queue lives in \<open>Scanner.tsx\<close>
  (\<open>startScanForId\<close> and the \<open>onclose\<close> handler of the socket).

  Field names follow the source; a prefix is added where two interfaces share a field
  name (\<open>n_\<close> for \<open>GraphNode\<close>, \<open>l_\<close> for \<open>GraphLink\<close>, \<open>p_\<close> for
  \<open>ParsedUser\<close>, \<open>d_\<close> for the \<open>data\<close> payload of an update).
\<close>

subsection \<open>JavaScript values\<close>

text \<open>
  Template literals print a number in decimal. Identifiers are integers (platform
  account ids) of absolute value below \<open>10^21\<close>, which \<open>`${n}`\<close> prints as the usual
  decimal numeral, with a leading minus sign for a negative number; larger numbers
  print in exponent form and are not modelled.
\<close>

definition digit_char :: "nat \<Rightarrow> char" where
  "digit_char n = ''0123456789'' ! n"

function string_of_nat :: "nat \<Rightarrow> string" where
  "string_of_nat n =
     (if n < 10 then [digit_char n]
      else string_of_nat (n div 10) @ [digit_char (n mod 10)])"
  by pat_completeness auto
termination
  by (relation "measure (\<lambda>n. n)") auto

declare string_of_nat.simps [simp del]

definition string_of_int :: "int \<Rightarrow> string" where
  "string_of_int i =
     (if i < 0 then ''-'' @ string_of_nat (nat (- i)) else string_of_nat (nat i))"

text \<open>
  An id field of a parsed message: missing, \<open>null\<close>, or a number. \<open>`${x}`\<close> prints
  the first two as \<open>undefined\<close> and \<open>null\<close>.
\<close>

datatype id_value = IdUndefined | IdNull | IdNum int

fun str_id :: "id_value \<Rightarrow> string" where
  "str_id IdUndefined = ''undefined''"
| "str_id IdNull = ''null''"
| "str_id (IdNum i) = string_of_int i"

text \<open>Truthiness of an optional string (\<open>undefined\<close> and \<open>''\<close> are falsy) and \<open>a || b\<close>.\<close>

fun truthy :: "string option \<Rightarrow> bool" where
  "truthy None = False"
| "truthy (Some s) = (s \<noteq> [])"

fun or_else :: "string option \<Rightarrow> string \<Rightarrow> string" where
  "or_else None d = d"
| "or_else (Some s) d = (if s = [] then d else s)"

text \<open>Truthiness of an id (\<open>undefined\<close>, \<open>null\<close> and \<open>0\<close> are falsy).\<close>

fun truthy_id :: "id_value \<Rightarrow> bool" where
  "truthy_id (IdNum i) = (i \<noteq> 0)"
| "truthy_id _ = False"

definition startsWith :: "string \<Rightarrow> string \<Rightarrow> bool" where
  "startsWith s p = (take (length p) s = p)"

subsection \<open>The JavaScript \<open>Map\<close>: insertion-ordered, one entry per key\<close>

text \<open>
  \<open>Map.set\<close> replaces the value of an existing key where it stands and appends a new
  key at the end; \<open>Array.from(m.values())\<close> lists the values in that order.
\<close>

type_synonym ('k, 'v) jsmap = "('k \<times> 'v) list"

fun map_set :: "'k \<Rightarrow> 'v \<Rightarrow> ('k, 'v) jsmap \<Rightarrow> ('k, 'v) jsmap" where
  "map_set k v [] = [(k, v)]"
| "map_set k v (p # ps) = (if fst p = k then (k, v) # ps else p # map_set k v ps)"

definition map_get :: "('k, 'v) jsmap \<Rightarrow> 'k \<Rightarrow> 'v option" where
  "map_get m k = map_of m k"

definition map_has :: "('k, 'v) jsmap \<Rightarrow> 'k \<Rightarrow> bool" where
  "map_has m k = (map_of m k \<noteq> None)"

definition new_Map :: "('k \<times> 'v) list \<Rightarrow> ('k, 'v) jsmap" where
  "new_Map es = foldl (\<lambda>m e. map_set (fst e) (snd e) m) [] es"

definition map_values :: "('k, 'v) jsmap \<Rightarrow> 'v list" where
  "map_values m = map snd m"

subsection \<open>Data model\<close>

text \<open>
  \<open>discoveredFrom\<close> is not a declared field of \<open>GraphNode\<close>: a node made from an
  account event carries it (\<open>null\<close> or a string), a node made from a gift or a channel
  link does not have it at all.
\<close>

datatype provenance = Absent | Null | Via string

fun prov_truthy :: "provenance \<Rightarrow> bool" where
  "prov_truthy (Via s) = (s \<noteq> [])"
| "prov_truthy _ = False"

record GraphNode =
  n_id :: string
  n_label :: string
  n_group :: string
  n_val :: rat
  n_title :: "string option"
  n_isTarget :: "bool option"
  n_discoveredFrom :: provenance

record GraphLink =
  l_source :: string
  l_target :: string
  l_value :: "nat option"
  l_label :: "string option"

datatype SourceType = Target | Gifter | Discovered

record GiftCount =
  userId :: string
  g_label :: string
  count :: nat

record ParsedUser =
  p_id :: string
  p_label :: string
  bio :: "string option"
  channels :: "string list"
  sourceType :: SourceType
  depth :: nat
  giftsSentTo :: "GiftCount list"
  giftsReceivedFrom :: "GiftCount list"
  totalGiftsSent :: nat
  totalGiftsReceived :: nat
  discoveredFrom :: provenance

text \<open>The payload of \<open>user_found\<close> and \<open>user_detail\<close> (every field may be missing).\<close>

record UserData =
  d_id :: id_value
  d_username :: "string option"
  d_first_name :: "string option"
  d_bio :: "string option"
  d_depth :: "int option"
  d_type :: "string option"
  d_channel_links :: "string list option"
  d_discovered_from :: "string option"

text \<open>
  A gift entry: only \<open>sender_id\<close> is read. \<open>resolved_users\<close> is an object indexed by
  sender id; a missing object answers every lookup with \<open>undefined\<close>, as the empty one.
\<close>

record ResolvedUser =
  r_username :: "string option"
  r_first_name :: "string option"

record GiftsData =
  user_id :: id_value
  gifts :: "id_value list"
  resolved_users :: "(int \<times> ResolvedUser) list"

text \<open>
  An update whose payload objects are present, by its \<open>type\<close> field (the fields of
  the payload may be missing). \<open>OtherUpdate\<close> stands for every type that
  \<open>processScanUpdate\<close> has no branch for: it merges nothing and still rebuilds the
  arrays and the records. (\<open>complete\<close> and \<open>error\<close> messages never reach the function,
  see \<open>ws.onmessage\<close>.) Messages without payload come below, with
  \<open>processScanUpdate_message\<close>.
\<close>

datatype Update =
    Log string
  | UserFound UserData
  | UserDetail UserData
  | UserGifts GiftsData
  | OtherUpdate

record GraphData =
  nodes :: "GraphNode list"
  links :: "GraphLink list"

record AppState =
  scanQueue :: "string list"
  customScanTargets :: "string list"
  scanTargetChatId :: string
  isScanning :: bool
  scannedUsers :: "UserData list"
  graphData :: GraphData
  parsedUsers :: "ParsedUser list"
  logs :: "string list"

subsection \<open>\<open>processScanUpdate\<close>\<close>

definition link_key :: "string \<Rightarrow> string \<Rightarrow> string" where
  "link_key s t = s @ ''-'' @ t"

definition account_id :: "id_value \<Rightarrow> string" where
  "account_id i = ''u_'' @ str_id i"

definition channel_id :: "string \<Rightarrow> string" where
  "channel_id clink = ''c_'' @ clink"

text \<open>Line 152: the label of the account of a \<open>user_found\<close> / \<open>user_detail\<close> update.\<close>

definition user_label :: "UserData \<Rightarrow> string" where
  "user_label data =
     (if truthy (d_username data) then ''@'' @ or_else (d_username data) []
      else or_else (d_first_name data) (''U_'' @ str_id (d_id data)))"

text \<open>
  The node under the account id after the update: the node found there with the
  assignments of lines 159--168 made, or the new node of lines 170--175.
\<close>

definition merged_node :: "UserData \<Rightarrow> GraphNode option \<Rightarrow> GraphNode" where
  "merged_node data old =
     (let uid = account_id (d_id data);
          label = user_label data;
          discoveredFrom =
            (if truthy (d_discovered_from data) then Via (or_else (d_discovered_from data) [])
             else Null)
      in case old of
           Some node \<Rightarrow>
             (let node1 = (if truthy (d_username data) then node\<lparr>n_label := label\<rparr> else node);
                  node2 = (if truthy (d_type data)
                           then node1\<lparr>n_group := or_else (d_type data) []\<rparr> else node1);
                  node3 = (if truthy (d_bio data) then node2\<lparr>n_title := d_bio data\<rparr> else node2);
                  node4 = (if n_isTarget node3 \<noteq> Some True \<and> \<not> truthy (d_discovered_from data)
                           then node3\<lparr>n_isTarget := Some True\<rparr> else node3)
              in (if prov_truthy discoveredFrom \<and> \<not> prov_truthy (n_discoveredFrom node4)
                  then node4\<lparr>n_discoveredFrom := discoveredFrom\<rparr> else node4))
         | None \<Rightarrow>
               \<lparr>n_id = uid, n_label = label, n_group = or_else (d_type data) ''member'',
                n_val = (if d_depth data = Some 0 then 8 else 9 / 2),
                n_title = Some (or_else (d_bio data) []),
                n_isTarget = Some (\<not> truthy (d_discovered_from data)),
                n_discoveredFrom = discoveredFrom\<rparr>)"

text \<open>
  Lines 157--176. The node of an existing key is changed where it stands in the map; a
  new key goes to the end.
\<close>

definition merge_user :: "UserData \<Rightarrow> (string, GraphNode) jsmap \<Rightarrow> (string, GraphNode) jsmap" where
  "merge_user data nodeMap =
     (let uid = account_id (d_id data)
      in map_set uid (merged_node data (map_get nodeMap uid)) nodeMap)"

text \<open>Lines 179--188: one channel handle of a \<open>user_detail\<close> update.\<close>

definition link_channel ::
  "string \<Rightarrow> (string, GraphNode) jsmap \<times> (string, GraphLink) jsmap \<Rightarrow> string \<Rightarrow>
   (string, GraphNode) jsmap \<times> (string, GraphLink) jsmap" where
  "link_channel uid maps clink =
     (let nodeMap = fst maps; linkMap = snd maps;
          cid = channel_id clink;
          nodeMap' = (if \<not> map_has nodeMap cid
                      then map_set cid
                             \<lparr>n_id = cid, n_label = ''@'' @ clink, n_group = ''channel'', n_val = 6,
                              n_title = None, n_isTarget = None, n_discoveredFrom = Absent\<rparr>
                             nodeMap
                      else nodeMap);
          lkey = link_key uid cid;
          linkMap' = (if \<not> map_has linkMap lkey
                      then map_set lkey
                             \<lparr>l_source = uid, l_target = cid, l_value = Some 1, l_label = None\<rparr>
                             linkMap
                      else linkMap)
      in (nodeMap', linkMap'))"

text \<open>Lines 196--241: one entry of the \<open>gifts\<close> array of a \<open>user_gifts\<close> update.\<close>

definition resolved_label :: "ResolvedUser option \<Rightarrow> string \<Rightarrow> string" where
  "resolved_label resolvedSender current =
     (case resolvedSender of
        None \<Rightarrow> current
      | Some r \<Rightarrow>
          if truthy (r_username r) then ''@'' @ or_else (r_username r) []
          else if truthy (r_first_name r) then or_else (r_first_name r) []
          else current)"

definition merge_gift ::
  "string \<Rightarrow> (int \<times> ResolvedUser) list \<Rightarrow>
   (string, GraphNode) jsmap \<times> (string, GraphLink) jsmap \<Rightarrow> id_value \<Rightarrow>
   (string, GraphNode) jsmap \<times> (string, GraphLink) jsmap" where
  "merge_gift targetId resolved maps sender_id =
     (if \<not> truthy_id sender_id then maps
      else
        let nodeMap = fst maps; linkMap = snd maps;
            srcId = account_id sender_id;
            resolvedSender = (case sender_id of IdNum i \<Rightarrow> map_of resolved i | _ \<Rightarrow> None);
            nodeMap' =
              (case map_get nodeMap srcId of
                 None \<Rightarrow>
                   map_set srcId
                     \<lparr>n_id = srcId,
                      n_label = resolved_label resolvedSender (''U_'' @ str_id sender_id),
                      n_group = ''potential_gifter'', n_val = 3,
                      n_title = None, n_isTarget = None, n_discoveredFrom = Absent\<rparr>
                     nodeMap
               | Some existingNode \<Rightarrow>
                   if resolvedSender \<noteq> None \<and> startsWith (n_label existingNode) ''U_''
                   then map_set srcId
                          (existingNode\<lparr>n_label := resolved_label resolvedSender (n_label existingNode)\<rparr>)
                          nodeMap
                   else nodeMap);
            lkey = link_key srcId targetId;
            linkMap' =
              (case map_get linkMap lkey of
                 Some l \<Rightarrow>
                   (let v = (case l_value l of None \<Rightarrow> 0 | Some n \<Rightarrow> n) + 1
                    in map_set lkey
                         (l\<lparr>l_value := Some v, l_label := Some (string_of_nat v @ '' GIFTS'')\<rparr>)
                         linkMap)
               | None \<Rightarrow>
                   map_set lkey
                     \<lparr>l_source = srcId, l_target = targetId, l_value = Some 1,
                      l_label = Some ''1 GIFT''\<rparr>
                     linkMap)
        in (nodeMap', linkMap'))"

text \<open>Lines 248--264: one record per node that is not a channel.\<close>

definition initial_record :: "GraphNode \<Rightarrow> ParsedUser" where
  "initial_record n =
     \<lparr>p_id = n_id n, p_label = n_label n, bio = n_title n, channels = [],
      sourceType = (if n_isTarget n = Some True then Target else Discovered),
      depth = 0, giftsSentTo = [], giftsReceivedFrom = [],
      totalGiftsSent = 0, totalGiftsReceived = 0,
      discoveredFrom = n_discoveredFrom n\<rparr>"

definition add_user :: "(string, ParsedUser) jsmap \<Rightarrow> GraphNode \<Rightarrow> (string, ParsedUser) jsmap" where
  "add_user userPool n =
     (if n_group n = ''channel'' then userPool
      else map_set (n_id n) (initial_record n) userPool)"

text \<open>
  Lines 266--283: one link. \<open>sender\<close> and \<open>receiver\<close> are references into the pool
  (the same object when a link joins a node to itself), so each write goes to the
  record stored under the key.
\<close>

text \<open>\<open>l.value || 1\<close> (line 276).\<close>

definition link_count :: "GraphLink \<Rightarrow> nat" where
  "link_count l = (case l_value l of None \<Rightarrow> 1 | Some n \<Rightarrow> if n = 0 then 1 else n)"

definition modify :: "'k \<Rightarrow> ('v \<Rightarrow> 'v) \<Rightarrow> ('k, 'v) jsmap \<Rightarrow> ('k, 'v) jsmap" where
  "modify k f m = (case map_get m k of None \<Rightarrow> m | Some v \<Rightarrow> map_set k (f v) m)"

definition tally_link ::
  "(string, GraphNode) jsmap \<Rightarrow> (string, ParsedUser) jsmap \<Rightarrow> GraphLink \<Rightarrow>
   (string, ParsedUser) jsmap" where
  "tally_link nodeMap userPool l =
     (let s = l_source l; t = l_target l;
          sender = map_get userPool s;
          receiver = map_get userPool t
      in if startsWith t ''c_'' \<and> sender \<noteq> None then
           (case map_get nodeMap t of
              None \<Rightarrow> userPool
            | Some chNode \<Rightarrow> modify s (\<lambda>u. u\<lparr>channels := channels u @ [n_label chNode]\<rparr>) userPool)
         else
           (case (sender, receiver) of
              (Some snd0, Some rcv0) \<Rightarrow>
                (let cnt = link_count l;
                     pool1 = modify s (\<lambda>u. u\<lparr>giftsSentTo := giftsSentTo u @
                                [\<lparr>userId = t, g_label = p_label rcv0, count = cnt\<rparr>],
                              totalGiftsSent := totalGiftsSent u + cnt\<rparr>) userPool;
                     pool2 = modify t (\<lambda>u. u\<lparr>giftsReceivedFrom := giftsReceivedFrom u @
                                [\<lparr>userId = s, g_label = p_label snd0, count = cnt\<rparr>],
                              totalGiftsReceived := totalGiftsReceived u + cnt\<rparr>) pool1
                 in modify s (\<lambda>u. if sourceType u = Discovered then u\<lparr>sourceType := Gifter\<rparr> else u)
                      pool2)
            | _ \<Rightarrow> userPool))"

definition project ::
  "(string, GraphNode) jsmap \<Rightarrow> (string, GraphLink) jsmap \<Rightarrow> ParsedUser list" where
  "project nodeMap linkMap =
     map_values (foldl (tally_link nodeMap) (foldl add_user [] (map_values nodeMap))
                   (map_values linkMap))"

text \<open>Lines 149--242: the merge of one update into the two maps.\<close>

fun merge_update ::
  "Update \<Rightarrow> (string, GraphNode) jsmap \<times> (string, GraphLink) jsmap \<Rightarrow>
   (string, GraphNode) jsmap \<times> (string, GraphLink) jsmap" where
  "merge_update (UserFound data) maps = (merge_user data (fst maps), snd maps)"
| "merge_update (UserDetail data) maps =
     (case d_channel_links data of
        None \<Rightarrow> (merge_user data (fst maps), snd maps)
      | Some clinks \<Rightarrow>
          foldl (link_channel (account_id (d_id data))) (merge_user data (fst maps), snd maps) clinks)"
| "merge_update (UserGifts data) maps =
     foldl (merge_gift (account_id (user_id data)) (resolved_users data)) maps (gifts data)"
| "merge_update _ maps = maps"

definition node_map :: "AppState \<Rightarrow> (string, GraphNode) jsmap" where
  "node_map state = new_Map (map (\<lambda>n. (n_id n, n)) (nodes (graphData state)))"

definition link_map :: "AppState \<Rightarrow> (string, GraphLink) jsmap" where
  "link_map state =
     new_Map (map (\<lambda>l. (link_key (l_source l) (l_target l), l)) (links (graphData state)))"

definition processScanUpdate :: "Update \<Rightarrow> AppState \<Rightarrow> AppState" where
  "processScanUpdate update state =
     (case update of
        Log message \<Rightarrow> state\<lparr>logs := logs state @ [message]\<rparr>
      | _ \<Rightarrow>
          (let maps = merge_update update (node_map state, link_map state);
               nodeMap = fst maps; linkMap = snd maps
           in state\<lparr>graphData := \<lparr>nodes = map_values nodeMap, links = map_values linkMap\<rparr>,
                    parsedUsers := project nodeMap linkMap,
                    logs := logs state\<rparr>))"

subsection \<open>Messages without payload: the reads that throw\<close>






subsection \<open>The store's scan actions and the queue of \<open>Scanner.tsx\<close>\<close>

definition startScan :: "AppState \<Rightarrow> AppState" where
  "startScan state =
     state\<lparr>isScanning := True, scannedUsers := [],
           graphData := \<lparr>nodes = [], links = []\<rparr>,
           parsedUsers := [], logs := [''SCAN_INITIATED'']\<rparr>"

definition stopScan :: "AppState \<Rightarrow> AppState" where
  "stopScan state = state\<lparr>isScanning := False, logs := logs state @ [''SCAN_HALTED'']\<rparr>"

definition addLog :: "string \<Rightarrow> AppState \<Rightarrow> AppState" where
  "addLog msg state = state\<lparr>logs := logs state @ [msg]\<rparr>"

definition setScanQueue :: "string list \<Rightarrow> AppState \<Rightarrow> AppState" where
  "setScanQueue queue state = state\<lparr>scanQueue := queue\<rparr>"

text \<open>
  \<open>startScanForId\<close> up to the opening of the socket (lines 80--84): the store part of
  starting the scan of one target.
\<close>

definition startScanForId :: "string \<Rightarrow> AppState \<Rightarrow> AppState" where
  "startScanForId chatId state =
     (if chatId = [] then state
      else
        addLog
          (if chatId = ''custom''
           then ''Connecting to scan '' @ string_of_nat (length (customScanTargets state)) @
                '' selected users...''
           else ''Connecting to '' @ chatId @ ''...'')
          (startScan (state\<lparr>scanTargetChatId := chatId\<rparr>)))"

text \<open>
  The timer callback of \<open>ws.onclose\<close> (lines 120--134), which runs after the stream of
  the current target has ended; \<open>autoProcess\<close> is the constant \<open>true\<close>.
\<close>

definition onclose_timeout :: "AppState \<Rightarrow> AppState" where
  "onclose_timeout state =
     (if \<not> isScanning state then state
      else case scanQueue state of
             nextId # nextQueue \<Rightarrow> startScanForId nextId (setScanQueue nextQueue state)
           | [] \<Rightarrow> addLog ''Scan stopped.'' (stopScan state))"

text \<open>The store as created (lines 94--112).\<close>

definition initial_state :: AppState where
  "initial_state =
     \<lparr>scanQueue = [], customScanTargets = [], scanTargetChatId = [], isScanning = False,
      scannedUsers = [], graphData = \<lparr>nodes = [], links = []\<rparr>, parsedUsers = [], logs = []\<rparr>"

text \<open>
  The effect of lines 138--147: with a non-empty queue and no scan running, the first
  queued target is taken off the queue and started.
\<close>

definition useEffect_autostart :: "AppState \<Rightarrow> AppState" where
  "useEffect_autostart state =
     (if scanQueue state \<noteq> [] \<and> \<not> isScanning state then
        (case scanQueue state of
           nextId # nextQueue \<Rightarrow>
             if nextId \<noteq> [] then startScanForId nextId (setScanQueue nextQueue state) else state
         | [] \<Rightarrow> state)
      else state)"

subsection \<open>Notions used in the statements\<close>

text \<open>
  A map is \<open>keyed\<close> by \<open>f\<close> when its keys are distinct and every value is stored under
  \<open>f\<close> of itself: the node map is keyed by \<open>n_id\<close>, the link map by the key string
  built from source and target.
\<close>

definition keyed :: "('v \<Rightarrow> 'k) \<Rightarrow> ('k, 'v) jsmap \<Rightarrow> bool" where
  "keyed f m = (distinct (map fst m) \<and> (\<forall>e \<in> set m. f (snd e) = fst e))"

text \<open>The key under which line 140 stores a link.\<close>

abbreviation l_key :: "GraphLink \<Rightarrow> string" where
  "l_key l \<equiv> link_key (l_source l) (l_target l)"

definition keyed_maps :: "(string, GraphNode) jsmap \<times> (string, GraphLink) jsmap \<Rightarrow> bool" where
  "keyed_maps maps = (keyed n_id (fst maps) \<and> keyed l_key (snd maps))"

text \<open>The two maps of \<open>processScanUpdate\<close> after the merge of \<open>u\<close> into the state.\<close>

definition merged ::
  "Update \<Rightarrow> AppState \<Rightarrow> (string, GraphNode) jsmap \<times> (string, GraphLink) jsmap" where
  "merged u state = merge_update u (node_map state, link_map state)"

text \<open>The channel node and the membership link of a handle are both present.\<close>

definition linked :: "string \<Rightarrow> (string, GraphNode) jsmap \<times> (string, GraphLink) jsmap \<Rightarrow> string \<Rightarrow> bool" where
  "linked uid maps clink =
     (map_has (fst maps) (channel_id clink) \<and> map_has (snd maps) (link_key uid (channel_id clink)))"

text \<open>
  What one link does to the record stored under key \<open>k\<close> (lines 266--283), given the
  labels \<open>lab\<close> of the records in the pool.
\<close>

definition tally_record ::
  "(string \<Rightarrow> string option) \<Rightarrow> (string, GraphNode) jsmap \<Rightarrow> string \<Rightarrow> GraphLink \<Rightarrow>
   ParsedUser \<Rightarrow> ParsedUser" where
  "tally_record lab nodeMap k l u =
     (let s = l_source l; t = l_target l
      in if startsWith t ''c_'' \<and> lab s \<noteq> None then
           (case map_get nodeMap t of
              None \<Rightarrow> u
            | Some chNode \<Rightarrow> if k = s then u\<lparr>channels := channels u @ [n_label chNode]\<rparr> else u)
         else
           (case (lab s, lab t) of
              (Some slabel, Some tlabel) \<Rightarrow>
                (let u1 = (if k = s
                           then u\<lparr>giftsSentTo := giftsSentTo u @
                                   [\<lparr>userId = t, g_label = tlabel, count = link_count l\<rparr>],
                                 totalGiftsSent := totalGiftsSent u + link_count l\<rparr>
                           else u);
                     u2 = (if k = t
                           then u1\<lparr>giftsReceivedFrom := giftsReceivedFrom u1 @
                                   [\<lparr>userId = s, g_label = slabel, count = link_count l\<rparr>],
                                  totalGiftsReceived := totalGiftsReceived u1 + link_count l\<rparr>
                           else u1)
                 in if k = s \<and> sourceType u2 = Discovered then u2\<lparr>sourceType := Gifter\<rparr> else u2)
            | _ \<Rightarrow> u))"

text \<open>The label of the record under a key, if the pool has one.\<close>

definition labels :: "(string, ParsedUser) jsmap \<Rightarrow> string \<Rightarrow> string option" where
  "labels userPool t = map_option p_label (map_get userPool t)"

text \<open>Applying \<open>f\<close> to the value of the entry with key \<open>k\<close>.\<close>

definition at_key :: "'k \<Rightarrow> ('v \<Rightarrow> 'v) \<Rightarrow> 'k \<times> 'v \<Rightarrow> 'k \<times> 'v" where
  "at_key k f e = (if fst e = k then (fst e, f (snd e)) else e)"

text \<open>The nodes that get a record: all but those of group \<open>channel\<close> (line 250).\<close>

definition is_account :: "GraphNode \<Rightarrow> bool" where
  "is_account n = (n_group n \<noteq> ''channel'')"

text \<open>The label of the record of a node id, read off the node map.\<close>

definition node_labels :: "(string, GraphNode) jsmap \<Rightarrow> string \<Rightarrow> string option" where
  "node_labels nodeMap t =
     (case map_get nodeMap t of
        None \<Rightarrow> None
      | Some n \<Rightarrow> if is_account n then Some (n_label n) else None)"

text \<open>The record of a node after all links have been tallied.\<close>

definition tally :: "(string, GraphNode) jsmap \<Rightarrow> GraphLink list \<Rightarrow> GraphNode \<Rightarrow> ParsedUser" where
  "tally nodeMap ls n =
     foldl (\<lambda>u l. tally_record (node_labels nodeMap) nodeMap (n_id n) l u) (initial_record n) ls"

text \<open>
  The links that reach the gift branch (lines 275--282): the target is not a channel
  id and both ends have a record.
\<close>

definition counts_as_gift :: "(string, GraphNode) jsmap \<Rightarrow> GraphLink \<Rightarrow> bool" where
  "counts_as_gift nodeMap l =
     (\<not> startsWith (l_target l) ''c_'' \<and> node_labels nodeMap (l_source l) \<noteq> None
      \<and> node_labels nodeMap (l_target l) \<noteq> None)"

text \<open>The tally of one link into the record of node id \<open>k\<close>, as a step of a fold.\<close>

abbreviation tally_step where
  "tally_step nm k \<equiv> (\<lambda>u l. tally_record (node_labels nm) nm k l u)"


text \<open>
  The shape of an account node id: \<open>u_\<close>, then a non-empty body with no minus sign
  after its first character.
\<close>

definition account_key :: "string \<Rightarrow> bool" where
  "account_key s = (startsWith s ''u_'' \<and> drop 2 s \<noteq> [] \<and> CHR ''-'' \<notin> set (tl (drop 2 s)))"

text \<open>
  The graphs that the store builds: every link starts at an account node that is in
  the node map and carries a positive weight; node ids and link keys are distinct;
  the stored records are the projection of the stored graph.
\<close>

definition wf_link :: "(string, GraphNode) jsmap \<Rightarrow> GraphLink \<Rightarrow> bool" where
  "wf_link nodeMap l =
     (account_key (l_source l) \<and> map_has nodeMap (l_source l)
      \<and> (case l_value l of None \<Rightarrow> False | Some v \<Rightarrow> 0 < v))"

definition wf_maps :: "(string, GraphNode) jsmap \<times> (string, GraphLink) jsmap \<Rightarrow> bool" where
  "wf_maps maps = list_all (wf_link (fst maps)) (map_values (snd maps))"

definition wf_state :: "AppState \<Rightarrow> bool" where
  "wf_state state =
     (distinct (map n_id (nodes (graphData state)))
      \<and> distinct (map l_key (links (graphData state)))
      \<and> wf_maps (node_map state, link_map state)
      \<and> parsedUsers state = project (node_map state) (link_map state))"

text \<open>
  The states that the store takes: the store as created, and what its actions and the
  queue handlers of the scanner make of a state.
\<close>

inductive reachable :: "AppState \<Rightarrow> bool" where
  created: "reachable initial_state"
| update: "reachable state \<Longrightarrow> reachable (processScanUpdate u state)"
| started: "reachable state \<Longrightarrow> reachable (startScan state)"
| stopped: "reachable state \<Longrightarrow> reachable (stopScan state)"
| logged: "reachable state \<Longrightarrow> reachable (addLog msg state)"
| queued: "reachable state \<Longrightarrow> reachable (setScanQueue queue state)"
| target_started: "reachable state \<Longrightarrow> reachable (startScanForId chatId state)"
| stream_closed: "reachable state \<Longrightarrow> reachable (onclose_timeout state)"
| autostarted: "reachable state \<Longrightarrow> reachable (useEffect_autostart state)"

text \<open>The totals of the record (if any) of a node id in a list of records.\<close>

definition sent_total :: "ParsedUser list \<Rightarrow> string \<Rightarrow> nat" where
  "sent_total rs k = sum_list (map totalGiftsSent (filter (\<lambda>r. p_id r = k) rs))"

definition received_total :: "ParsedUser list \<Rightarrow> string \<Rightarrow> nat" where
  "received_total rs k = sum_list (map totalGiftsReceived (filter (\<lambda>r. p_id r = k) rs))"

text \<open>The weight of the link from \<open>s\<close> to \<open>t\<close>, 0 when there is none.\<close>

definition weight :: "(string, GraphLink) jsmap \<Rightarrow> string \<Rightarrow> string \<Rightarrow> nat" where
  "weight linkMap s t =
     (case map_get linkMap (link_key s t) of
        None \<Rightarrow> 0
      | Some l \<Rightarrow> (case l_value l of None \<Rightarrow> 0 | Some v \<Rightarrow> v))"

text \<open>What a link adds to the total-sent, and to the total-received, of node id \<open>k\<close>.\<close>

definition sent_sum :: "(string, GraphNode) jsmap \<Rightarrow> string \<Rightarrow> GraphLink \<Rightarrow> nat" where
  "sent_sum nodeMap k l = (if counts_as_gift nodeMap l \<and> l_source l = k then link_count l else 0)"

definition received_sum :: "(string, GraphNode) jsmap \<Rightarrow> string \<Rightarrow> GraphLink \<Rightarrow> nat" where
  "received_sum nodeMap k l = (if counts_as_gift nodeMap l \<and> l_target l = k then link_count l else 0)"

text \<open>The gift event of one sender to a recipient.\<close>

definition one_gift :: "id_value \<Rightarrow> id_value \<Rightarrow> (int \<times> ResolvedUser) list \<Rightarrow> Update" where
  "one_gift recipient sender resolved =
     UserGifts \<lparr>user_id = recipient, gifts = [sender], resolved_users = resolved\<rparr>"

text \<open>
  The recipient has an account record, and the sender has one or has no node yet.
\<close>

definition gift_ready :: "id_value \<Rightarrow> id_value \<Rightarrow> AppState \<Rightarrow> bool" where
  "gift_ready recipient sender state =
     (wf_state state \<and> truthy_id sender
      \<and> node_labels (node_map state) (account_id recipient) \<noteq> None
      \<and> (case map_get (node_map state) (account_id sender) of
            None \<Rightarrow> True | Some n \<Rightarrow> is_account n))"

text \<open>
  A node as line 213 makes it for a gift sender, not touched by an account event since:
  no target flag, no discovered-via field, not a channel.
\<close>

definition gift_made ::
  "string \<Rightarrow> (string, GraphNode) jsmap \<times> (string, GraphLink) jsmap \<Rightarrow> bool" where
  "gift_made k maps =
     (\<exists>n. map_get (fst maps) k = Some n \<and> n_isTarget n = None \<and> n_discoveredFrom n = Absent
          \<and> is_account n)"

text \<open>Every link that leaves \<open>k\<close> goes to \<open>t\<close>.\<close>

definition all_to :: "string \<Rightarrow> string \<Rightarrow> (string, GraphNode) jsmap \<times> (string, GraphLink) jsmap \<Rightarrow> bool" where
  "all_to k t maps = (\<forall>l \<in> set (map_values (snd maps)). l_source l = k \<longrightarrow> l_target l = t)"

text \<open>The update is an account event for the node id.\<close>

fun observes :: "Update \<Rightarrow> string \<Rightarrow> bool" where
  "observes (UserFound d) k = (account_id (d_id d) = k)"
| "observes (UserDetail d) k = (account_id (d_id d) = k)"
| "observes _ k = False"

text \<open>Applying a list of updates in order.\<close>

definition run :: "Update list \<Rightarrow> AppState \<Rightarrow> AppState" where
  "run us state = foldl (\<lambda>st u. processScanUpdate u st) state us"



subsection \<open>Example events and states\<close>

text \<open>Account events.\<close>

definition alice :: UserData where
  "alice = \<lparr>d_id = IdNum 1, d_username = Some ''alice'', d_first_name = None, d_bio = None,
            d_depth = None, d_type = None, d_channel_links = None, d_discovered_from = None\<rparr>"


definition found_via :: UserData where
  "found_via = \<lparr>d_id = IdNum 7, d_username = Some ''carol'', d_first_name = None, d_bio = None,
                d_depth = Some 1, d_type = None, d_channel_links = None,
                d_discovered_from = Some ''@alice''\<rparr>"

definition found_again :: UserData where
  "found_again = \<lparr>d_id = IdNum 7, d_username = None, d_first_name = None, d_bio = None,
                  d_depth = None, d_type = None, d_channel_links = None,
                  d_discovered_from = None\<rparr>"

definition unnamed :: UserData where
  "unnamed = \<lparr>d_id = IdNum 1, d_username = None, d_first_name = None, d_bio = None,
              d_depth = None, d_type = None, d_channel_links = None, d_discovered_from = None\<rparr>"

definition first_name_only :: UserData where
  "first_name_only = unnamed\<lparr>d_first_name := Some ''Bob''\<rparr>"

definition newschannel_links :: UserData where
  "newschannel_links = alice\<lparr>d_channel_links := Some [''newschannel'', ''other'']\<rparr>"




definition gift_resolving_first_name :: GiftsData where
  "gift_resolving_first_name =
     \<lparr>user_id = IdNum 9, gifts = [IdNum 1],
      resolved_users = [(1, \<lparr>r_username = None, r_first_name = Some ''Bob''\<rparr>)]\<rparr>"

definition gift_2_to_1 :: GiftsData where
  "gift_2_to_1 = \<lparr>user_id = IdNum 1, gifts = [IdNum 2], resolved_users = []\<rparr>"

definition gift_7_to_1 :: GiftsData where
  "gift_7_to_1 = \<lparr>user_id = IdNum 1, gifts = [IdNum 7], resolved_users = []\<rparr>"


text \<open>States.\<close>

definition first_target_scanned :: AppState where
  "first_target_scanned =
     processScanUpdate (UserFound alice)
       (useEffect_autostart (setScanQueue [''t1'', ''t2''] initial_state))"

definition alice_found :: AppState where
  "alice_found = processScanUpdate (UserFound alice) initial_state"

definition carol_found :: AppState where
  "carol_found = processScanUpdate (UserFound found_via) initial_state"

definition carol_gave :: AppState where
  "carol_gave =
     processScanUpdate (UserGifts gift_7_to_1) (processScanUpdate (UserFound alice) carol_found)"

section \<open>Properties\<close>

subsection \<open>The insertion-ordered map\<close>

lemma map_of_map_set: "map_of (map_set k v m) = (map_of m)(k \<mapsto> v)"
  by (induction m) (auto simp: fun_eq_iff)

lemma keys_map_set:
  "map fst (map_set k v m) = (if k \<in> set (map fst m) then map fst m else map fst m @ [k])"
  by (induction m) auto

lemma distinct_map_set: "distinct (map fst m) \<Longrightarrow> distinct (map fst (map_set k v m))"
  by (simp add: keys_map_set)

lemma map_set_fresh: "k \<notin> set (map fst m) \<Longrightarrow> map_set k v m = m @ [(k, v)]"
  by (induction m) auto

lemma map_set_same: "map_of m k = Some v \<Longrightarrow> map_set k v m = m"
  by (induction m) (auto split: if_splits)

lemma map_set_twice: "map_set k v (map_set k w m) = map_set k v m"
  by (induction m) auto

lemma set_map_set_subset: "set (map_set k v m) \<subseteq> insert (k, v) (set m)"
  by (induction m) auto

lemma map_get_map_set: "map_get (map_set k v m) k' = (if k' = k then Some v else map_get m k')"
  by (simp add: map_get_def map_of_map_set)

lemma map_has_map_set: "map_has (map_set k v m) k' = (k' = k \<or> map_has m k')"
  by (simp add: map_has_def map_of_map_set)


lemma keyed_Nil: "keyed f []"
  by (simp add: keyed_def)

lemma keyed_map_set: "keyed f m \<Longrightarrow> f v = k \<Longrightarrow> keyed f (map_set k v m)"
  using set_map_set_subset [of k v m] by (auto simp: keyed_def distinct_map_set)

lemma keyed_foldl_set:
  "keyed f m \<Longrightarrow> keyed f (foldl (\<lambda>m e. map_set (fst e) (snd e) m) m (map (\<lambda>v. (f v, v)) vs))"
  by (induction vs arbitrary: m) (auto simp: keyed_map_set)

lemma keyed_new_Map: "keyed f (new_Map (map (\<lambda>v. (f v, v)) vs))"
  unfolding new_Map_def by (rule keyed_foldl_set) (rule keyed_Nil)

lemma foldl_set_fresh:
  "distinct (map fst (m @ es)) \<Longrightarrow> foldl (\<lambda>m e. map_set (fst e) (snd e) m) m es = m @ es"
proof (induction es arbitrary: m)
  case Nil
  then show ?case by simp
next
  case (Cons e es)
  have "map_set (fst e) (snd e) m = m @ [e]"
    using Cons.prems by (intro trans [OF map_set_fresh]) auto
  then show ?case using Cons.IH [of "m @ [e]"] Cons.prems by simp
qed

lemma new_Map_distinct: "distinct (map fst es) \<Longrightarrow> new_Map es = es"
  unfolding new_Map_def using foldl_set_fresh [of "[]" es] by simp

lemma keyed_entries: "keyed f m \<Longrightarrow> map (\<lambda>v. (f v, v)) (map_values m) = m"
  unfolding keyed_def map_values_def by (induction m) auto

text \<open>Writing a keyed map out as an array and reading it back gives the same map.\<close>

lemma new_Map_values: "keyed f m \<Longrightarrow> new_Map (map (\<lambda>v. (f v, v)) (map_values m)) = m"
  by (simp add: keyed_entries new_Map_distinct keyed_def)

lemma map_get_keyed: "keyed f m \<Longrightarrow> map_get m k = Some v \<Longrightarrow> f v = k"
  unfolding keyed_def map_get_def by (auto dest: map_of_SomeD)

subsection \<open>The merge keeps both maps keyed\<close>

lemma n_id_merged_node:
  "n_id (merged_node data old) = (case old of None \<Rightarrow> account_id (d_id data) | Some node \<Rightarrow> n_id node)"
  by (simp add: merged_node_def Let_def split: option.splits)

lemma keyed_merge_user: "keyed n_id nodeMap \<Longrightarrow> keyed n_id (merge_user data nodeMap)"
  unfolding merge_user_def Let_def
  by (rule keyed_map_set) (auto simp: n_id_merged_node split: option.splits dest: map_get_keyed)

lemma keyed_link_channel:
  "keyed n_id (fst maps) \<Longrightarrow> keyed n_id (fst (link_channel uid maps clink))"
  unfolding link_channel_def Let_def by (auto intro!: keyed_map_set)

lemma keyed_link_channel2:
  "keyed l_key (snd maps) \<Longrightarrow> keyed l_key (snd (link_channel uid maps clink))"
  unfolding link_channel_def Let_def by (auto intro!: keyed_map_set)

lemma keyed_merge_gift:
  "keyed n_id (fst maps) \<Longrightarrow> keyed n_id (fst (merge_gift targetId resolved maps sender_id))"
  unfolding merge_gift_def Let_def
  by (auto split: option.splits intro!: keyed_map_set dest: map_get_keyed)

lemma keyed_merge_gift2:
  "keyed l_key (snd maps) \<Longrightarrow> keyed l_key (snd (merge_gift targetId resolved maps sender_id))"
  unfolding merge_gift_def Let_def
  by (auto split: option.splits intro!: keyed_map_set dest: map_get_keyed)

lemma keyed_maps_link_channel: "keyed_maps maps \<Longrightarrow> keyed_maps (link_channel uid maps clink)"
  by (simp add: keyed_maps_def keyed_link_channel keyed_link_channel2)

lemma keyed_maps_merge_gift: "keyed_maps maps \<Longrightarrow> keyed_maps (merge_gift t r maps s)"
  by (simp add: keyed_maps_def keyed_merge_gift keyed_merge_gift2)

lemma keyed_maps_foldl:
  assumes "\<And>maps x. keyed_maps maps \<Longrightarrow> keyed_maps (f maps x)"
  shows "keyed_maps maps \<Longrightarrow> keyed_maps (foldl f maps xs)"
  by (induction xs arbitrary: maps) (simp_all add: assms)

lemma keyed_maps_merge_update: "keyed_maps maps \<Longrightarrow> keyed_maps (merge_update u maps)"
proof (cases u)
  case (UserFound d)
  then show "keyed_maps maps \<Longrightarrow> ?thesis" by (simp add: keyed_maps_def keyed_merge_user)
next
  case (UserDetail d)
  assume k: "keyed_maps maps"
  then have "keyed_maps (merge_user d (fst maps), snd maps)"
    by (simp add: keyed_maps_def keyed_merge_user)
  then show ?thesis using UserDetail
    by (auto split: option.splits intro: keyed_maps_foldl keyed_maps_link_channel)
next
  case (UserGifts g)
  assume "keyed_maps maps"
  then show ?thesis using UserGifts
    by (auto intro: keyed_maps_foldl keyed_maps_merge_gift)
qed simp_all

lemma keyed_node_map: "keyed n_id (node_map state)"
  unfolding node_map_def by (rule keyed_new_Map)

lemma keyed_link_map: "keyed l_key (link_map state)"
  unfolding link_map_def by (rule keyed_new_Map)

lemma keyed_maps_state: "keyed_maps (node_map state, link_map state)"
  by (simp add: keyed_maps_def keyed_node_map keyed_link_map)

lemma keyed_merged: "keyed_maps (merged u state)"
  unfolding merged_def by (rule keyed_maps_merge_update) (rule keyed_maps_state)

lemma process_not_Log:
  "\<forall>msg. u \<noteq> Log msg \<Longrightarrow>
   processScanUpdate u state =
     state\<lparr>graphData := \<lparr>nodes = map_values (fst (merged u state)),
                          links = map_values (snd (merged u state))\<rparr>,
           parsedUsers := project (fst (merged u state)) (snd (merged u state)),
           logs := logs state\<rparr>"
  by (cases u) (simp_all add: processScanUpdate_def merged_def Let_def)

text \<open>The maps rebuilt from the arrays that an update wrote are the maps it merged.\<close>

lemma node_map_process:
  "\<forall>msg. u \<noteq> Log msg \<Longrightarrow> node_map (processScanUpdate u state) = fst (merged u state)"
  using keyed_merged [of u state]
  by (simp add: process_not_Log node_map_def new_Map_values keyed_maps_def)

lemma link_map_process:
  "\<forall>msg. u \<noteq> Log msg \<Longrightarrow> link_map (processScanUpdate u state) = snd (merged u state)"
  using keyed_merged [of u state] new_Map_values [of l_key "snd (merged u state)"]
  by (simp add: process_not_Log link_map_def keyed_maps_def)

subsection \<open>The scan queue\<close>

text \<open>
  C1 (as the code has it). When the stream of a target has ended, a scan is running and
  the queue holds a next target, the transition to that target goes through
  \<open>startScan\<close>: the graph arrays and the projected records are emptied, the next
  target becomes the current one and the rest of the queue is kept.
\<close>

theorem queue_transition_resets_graph:
  assumes "isScanning state" and "scanQueue state = nextId # nextQueue" and "nextId \<noteq> []"
  shows "graphData (onclose_timeout state) = \<lparr>nodes = [], links = []\<rparr>
       \<and> parsedUsers (onclose_timeout state) = []
       \<and> scanQueue (onclose_timeout state) = nextQueue
       \<and> scanTargetChatId (onclose_timeout state) = nextId
       \<and> isScanning (onclose_timeout state)"
  using assms
  by (simp add: onclose_timeout_def startScanForId_def startScan_def addLog_def setScanQueue_def)

lemma first_target_scanned_queue:
  "isScanning first_target_scanned \<and> scanQueue first_target_scanned = [''t2'']"
  by code_simp

theorem queue_transition_resets_graph_witness:
  "graphData (onclose_timeout first_target_scanned) = \<lparr>nodes = [], links = []\<rparr>
   \<and> parsedUsers (onclose_timeout first_target_scanned) = []
   \<and> scanQueue (onclose_timeout first_target_scanned) = []
   \<and> scanTargetChatId (onclose_timeout first_target_scanned) = ''t2''
   \<and> isScanning (onclose_timeout first_target_scanned)"
  using queue_transition_resets_graph [of first_target_scanned "''t2''" "[]"]
    first_target_scanned_queue
  by simp

text \<open>
  Two targets are queued, the first is started and an account is found under it; at
  the transition to the second target the node of that account is gone.
\<close>

theorem queue_continuity_counterexample:
  "nodes (graphData first_target_scanned) \<noteq> []
   \<and> graphData (onclose_timeout first_target_scanned) \<noteq> graphData first_target_scanned"
  by code_simp

subsection \<open>Merging the same account event again changes nothing\<close>

lemma merge_user_eq:
  "merge_user d m = map_set (account_id (d_id d)) (merged_node d (map_get m (account_id (d_id d)))) m"
  by (simp add: merge_user_def Let_def)

lemma truthy_or_else: "truthy x \<Longrightarrow> Some (or_else x d) = x"
  by (cases x) auto

lemma truthy_or_else_eq: "truthy x \<Longrightarrow> or_else x d = or_else x d'"
  by (cases x) auto

lemma truthy_or_else_ne: "truthy x \<Longrightarrow> or_else x [] \<noteq> []"
  by (cases x) auto

lemma merged_node_fixed: "merged_node d (Some (merged_node d old)) = merged_node d old"
proof (cases old)
  case None
  then show ?thesis
    by (cases "truthy (d_discovered_from d)"; cases "truthy (d_username d)";
        cases "truthy (d_type d)"; cases "truthy (d_bio d)")
       (simp_all add: merged_node_def Let_def truthy_or_else truthy_or_else_ne
          truthy_or_else_eq [of _ "[]" "''member''"])
next
  case (Some node)
  then show ?thesis
    by (cases "truthy (d_discovered_from d)"; cases "n_isTarget node = Some True";
        cases "truthy (d_username d)"; cases "truthy (d_type d)"; cases "truthy (d_bio d)";
        cases "prov_truthy (n_discoveredFrom node)")
       (simp_all add: merged_node_def Let_def truthy_or_else_ne)
qed

lemma merge_user_fixed:
  assumes "map_get m' (account_id (d_id d)) = map_get (merge_user d m) (account_id (d_id d))"
  shows "merge_user d m' = m'"
proof -
  let ?uid = "account_id (d_id d)"
  let ?v = "merged_node d (map_get m ?uid)"
  have g: "map_get m' ?uid = Some ?v"
    using assms by (simp add: merge_user_eq [of d m] map_get_map_set)
  have "merge_user d m' = map_set ?uid (merged_node d (Some ?v)) m'"
    by (simp add: merge_user_eq [of d m'] g)
  also have "\<dots> = map_set ?uid ?v m'"
    by (simp only: merged_node_fixed)
  also have "\<dots> = m'"
    using g by (simp add: map_set_same map_get_def)
  finally show ?thesis .
qed

lemma merge_user_idem: "merge_user d (merge_user d m) = merge_user d m"
  by (rule merge_user_fixed) simp

lemma link_channel_noop: "linked uid maps clink \<Longrightarrow> link_channel uid maps clink = maps"
  by (simp add: linked_def link_channel_def Let_def)

lemma link_channel_linked: "linked uid (link_channel uid maps clink) clink"
  by (simp add: linked_def link_channel_def Let_def map_has_map_set)

lemma link_channel_mono: "linked uid maps c \<Longrightarrow> linked uid (link_channel uid maps clink) c"
  by (simp add: linked_def link_channel_def Let_def map_has_map_set)

lemma link_channel_get:
  "map_get (fst maps) k = Some v \<Longrightarrow> map_get (fst (link_channel uid maps clink)) k = Some v"
  by (auto simp: link_channel_def Let_def map_has_def map_get_def map_of_map_set)

lemma foldl_link_channel_mono:
  "linked uid maps c \<Longrightarrow> linked uid (foldl (link_channel uid) maps clinks) c"
  by (induction clinks arbitrary: maps) (simp_all add: link_channel_mono)

lemma foldl_link_channel_linked:
  "c \<in> set clinks \<Longrightarrow> linked uid (foldl (link_channel uid) maps clinks) c"
proof (induction clinks arbitrary: maps)
  case Nil
  then show ?case by simp
next
  case (Cons a clinks)
  show ?case
  proof (cases "c = a")
    case True
    then show ?thesis by (simp add: foldl_link_channel_mono link_channel_linked)
  next
    case False
    with Cons show ?thesis by simp
  qed
qed

lemma foldl_link_channel_get:
  "map_get (fst maps) k = Some v \<Longrightarrow> map_get (fst (foldl (link_channel uid) maps clinks)) k = Some v"
  by (induction clinks arbitrary: maps) (simp_all add: link_channel_get)

lemma foldl_link_channel_noop:
  "\<forall>c \<in> set clinks. linked uid maps c \<Longrightarrow> foldl (link_channel uid) maps clinks = maps"
  by (induction clinks) (simp_all add: link_channel_noop)

lemma merge_user_get:
  "map_get (merge_user d m) (account_id (d_id d)) = Some (merged_node d (map_get m (account_id (d_id d))))"
  by (simp add: merge_user_eq map_get_map_set)

lemma merge_update_user_idem:
  "u = UserFound d \<or> u = UserDetail d \<Longrightarrow> merge_update u (merge_update u maps) = merge_update u maps"
proof (cases "u = UserDetail d \<and> d_channel_links d \<noteq> None")
  case False
  assume "u = UserFound d \<or> u = UserDetail d"
  with False show ?thesis by (auto simp: merge_user_idem)
next
  case True
  then obtain clinks where c: "d_channel_links d = Some clinks" and u: "u = UserDetail d" by auto
  let ?uid = "account_id (d_id d)"
  let ?m1 = "(merge_user d (fst maps), snd maps)"
  let ?m2 = "foldl (link_channel ?uid) ?m1 clinks"
  have m2: "merge_update u maps = ?m2" using c u by simp
  have "map_get (fst ?m2) ?uid = map_get (merge_user d (fst maps)) ?uid"
    using foldl_link_channel_get [of ?m1 ?uid _ ?uid clinks] by (simp add: merge_user_get)
  then have fixd: "merge_user d (fst ?m2) = fst ?m2" by (rule merge_user_fixed)
  have "merge_update u ?m2 = foldl (link_channel ?uid) (merge_user d (fst ?m2), snd ?m2) clinks"
    using c u by simp
  also have "\<dots> = foldl (link_channel ?uid) ?m2 clinks" by (simp add: fixd)
  also have "\<dots> = ?m2"
    by (rule foldl_link_channel_noop) (simp add: foldl_link_channel_linked)
  finally show ?thesis by (simp only: m2)
qed

lemma process_idem:
  assumes nl: "\<forall>msg. u \<noteq> Log msg"
    and idem: "\<And>maps. merge_update u (merge_update u maps) = merge_update u maps"
  shows "processScanUpdate u (processScanUpdate u state) = processScanUpdate u state"
proof -
  let ?s = "processScanUpdate u state"
  have "merged u ?s = merge_update u (merged u state)"
    by (simp add: merged_def [of u ?s] node_map_process [OF nl] link_map_process [OF nl])
  then have m: "merged u ?s = merged u state"
    by (simp add: merged_def [of u state] idem)
  let ?G = "\<lparr>nodes = map_values (fst (merged u state)),
             links = map_values (snd (merged u state))\<rparr>"
  let ?P = "project (fst (merged u state)) (snd (merged u state))"
  have s: "?s = state\<lparr>graphData := ?G, parsedUsers := ?P, logs := logs state\<rparr>"
    by (rule process_not_Log [OF nl])
  have "processScanUpdate u ?s =
          ?s\<lparr>graphData := \<lparr>nodes = map_values (fst (merged u ?s)),
                               links = map_values (snd (merged u ?s))\<rparr>,
              parsedUsers := project (fst (merged u ?s)) (snd (merged u ?s)),
              logs := logs ?s\<rparr>"
    by (rule process_not_Log [OF nl])
  also have "\<dots> = ?s\<lparr>graphData := ?G, parsedUsers := ?P, logs := logs ?s\<rparr>"
    by (simp only: m)
  also have "\<dots> = ?s"
    by (simp add: s)
  finally show ?thesis .
qed

text \<open>
  C8. Applying an account event (\<open>user_found\<close>, or \<open>user_detail\<close> with its channel
  links) twice in succession gives the same store as applying it once: the node and
  link arrays, the projected records and the log are the same.
\<close>

theorem account_observed_idempotent:
  "processScanUpdate (UserFound d) (processScanUpdate (UserFound d) state)
     = processScanUpdate (UserFound d) state
   \<and> processScanUpdate (UserDetail d) (processScanUpdate (UserDetail d) state)
     = processScanUpdate (UserDetail d) state"
proof
  show "processScanUpdate (UserFound d) (processScanUpdate (UserFound d) state)
          = processScanUpdate (UserFound d) state"
    by (rule process_idem, simp, rule merge_update_user_idem [of _ d], simp)
  show "processScanUpdate (UserDetail d) (processScanUpdate (UserDetail d) state)
          = processScanUpdate (UserDetail d) state"
    by (rule process_idem, simp, rule merge_update_user_idem [of _ d], simp)
qed

subsection \<open>The projection, record by record\<close>

lemma map_set_at_key:
  "distinct (map fst m) \<Longrightarrow> map_of m k = Some v \<Longrightarrow> map_set k (f v) m = map (at_key k f) m"
proof (induction m)
  case Nil
  then show ?case by simp
next
  case (Cons e m)
  show ?case
  proof (cases "fst e = k")
    case True
    then have "k \<notin> fst ` set m" using Cons.prems by auto
    then have "map (at_key k f) m = m"
      by (intro map_idI) (auto simp: at_key_def)
    moreover have "at_key k f e = (k, f v)"
      using True Cons.prems by (simp add: at_key_def)
    ultimately show ?thesis using True by simp
  next
    case False
    then show ?thesis using Cons by (simp add: at_key_def)
  qed
qed

lemma map_at_key_absent: "map_of m k = None \<Longrightarrow> map (at_key k f) m = m"
  by (intro map_idI) (auto simp: at_key_def map_of_eq_None_iff)

lemma modify_map: "distinct (map fst m) \<Longrightarrow> modify k f m = map (at_key k f) m"
  by (cases "map_of m k") (simp_all add: modify_def map_get_def map_set_at_key map_at_key_absent)

lemma fst_at_key [simp]: "fst (at_key k f e) = fst e"
  by (simp add: at_key_def)

lemma fst_comp_at_key [simp]: "fst \<circ> at_key k f = fst"
  by (simp add: fun_eq_iff)

lemma keys_at_key [simp]: "map fst (map (at_key k f) m) = map fst m"
  by simp

lemma tally_link_pointwise:
  assumes "distinct (map fst pool)"
  shows "tally_link nm pool l =
           map (\<lambda>e. (fst e, tally_record (labels pool) nm (fst e) l (snd e))) pool"
proof -
  let ?s = "l_source l" and ?t = "l_target l"
  have d1: "\<And>k f. distinct (map fst (map (at_key k f) pool))" using assms by simp
  have d2: "\<And>k f k' f'. distinct (map fst (map (at_key k f) (map (at_key k' f') pool)))"
    using assms by (simp only: keys_at_key)
  show ?thesis
  proof (cases "startsWith ?t ''c_'' \<and> map_get pool ?s \<noteq> None")
    case True
    then show ?thesis
      using assms
      by (cases "map_get nm ?t")
         (auto simp: tally_link_def tally_record_def labels_def Let_def modify_map at_key_def
            intro!: map_idI)
  next
    case False
    show ?thesis
    proof (cases "map_get pool ?s")
      case None
      then show ?thesis using False
        by (auto simp: tally_link_def tally_record_def labels_def Let_def intro!: map_idI [symmetric])
    next
      case s: (Some snd0)
      show ?thesis
      proof (cases "map_get pool ?t")
        case None
        then show ?thesis using False s
          by (auto simp: tally_link_def tally_record_def labels_def Let_def intro!: map_idI [symmetric])
      next
        case t: (Some rcv0)
        have c: "\<not> startsWith ?t ''c_''" using False s by simp
        let ?f1 = "\<lambda>u. u\<lparr>giftsSentTo := giftsSentTo u @
                       [\<lparr>userId = ?t, g_label = p_label rcv0, count = link_count l\<rparr>],
                     totalGiftsSent := totalGiftsSent u + link_count l\<rparr>"
        let ?f2 = "\<lambda>u. u\<lparr>giftsReceivedFrom := giftsReceivedFrom u @
                       [\<lparr>userId = ?s, g_label = p_label snd0, count = link_count l\<rparr>],
                     totalGiftsReceived := totalGiftsReceived u + link_count l\<rparr>"
        let ?f3 = "\<lambda>u. if sourceType u = Discovered then u\<lparr>sourceType := Gifter\<rparr> else u"
        have "tally_link nm pool l = modify ?s ?f3 (modify ?t ?f2 (modify ?s ?f1 pool))"
          using s t c by (simp add: tally_link_def Let_def link_count_def)
        also have "\<dots> = map (at_key ?s ?f3) (map (at_key ?t ?f2) (map (at_key ?s ?f1) pool))"
          by (simp only: modify_map [OF assms] modify_map [OF d1] modify_map [OF d2])
        also have "\<dots> = map (\<lambda>e. (fst e, tally_record (labels pool) nm (fst e) l (snd e))) pool"
          using s t c by (auto simp: at_key_def tally_record_def labels_def Let_def)
        finally show ?thesis .
      qed
    qed
  qed
qed

lemma p_label_tally_record [simp]: "p_label (tally_record lab nm k l u) = p_label u"
  by (simp add: tally_record_def Let_def split: option.splits)

lemma map_of_map_keyed:
  "map_of (map (\<lambda>e. (fst e, g (fst e) (snd e))) m) k = map_option (g k) (map_of m k)"
  by (induction m) auto

lemma labels_tally:
  "labels (map (\<lambda>e. (fst e, tally_record lab nm (fst e) l (snd e))) pool) = labels pool"
  by (simp add: labels_def fun_eq_iff map_get_def option.map_comp comp_def
        map_of_map_keyed [of "\<lambda>k. tally_record lab nm k l"])

lemma foldl_tally_link:
  "distinct (map fst pool) \<Longrightarrow>
   foldl (tally_link nm) pool ls =
     map (\<lambda>e. (fst e, foldl (\<lambda>u l. tally_record (labels pool) nm (fst e) l u) (snd e) ls)) pool"
proof (induction ls arbitrary: pool)
  case Nil
  then show ?case by simp
next
  case (Cons l ls)
  let ?pool' = "map (\<lambda>e. (fst e, tally_record (labels pool) nm (fst e) l (snd e))) pool"
  have step: "tally_link nm pool l = ?pool'"
    by (rule tally_link_pointwise) (rule Cons.prems)
  have d: "distinct (map fst ?pool')" using Cons.prems by (simp add: comp_def)
  show ?case
    by (simp add: step Cons.IH [OF d] labels_tally comp_def)
qed

lemma add_user_eq:
  "add_user pool n = (if is_account n then map_set (n_id n) (initial_record n) pool else pool)"
  by (simp add: add_user_def is_account_def)

lemma foldl_add_user:
  "distinct (map fst acc @ map n_id ns) \<Longrightarrow>
   foldl add_user acc ns = acc @ map (\<lambda>n. (n_id n, initial_record n)) (filter is_account ns)"
proof (induction ns arbitrary: acc)
  case Nil
  then show ?case by simp
next
  case (Cons n ns)
  show ?case
  proof (cases "is_account n")
    case True
    have "map_set (n_id n) (initial_record n) acc = acc @ [(n_id n, initial_record n)]"
      using Cons.prems by (intro map_set_fresh) auto
    then show ?thesis
      using True Cons.IH [of "acc @ [(n_id n, initial_record n)]"] Cons.prems
      by (simp add: add_user_eq)
  next
    case False
    then show ?thesis using Cons.IH [of acc] Cons.prems by (simp add: add_user_eq)
  qed
qed

lemma keyed_ids: "keyed f m \<Longrightarrow> map f (map_values m) = map fst m"
  by (simp add: keyed_def map_values_def)

lemma user_pool:
  assumes "keyed n_id nm"
  shows "foldl add_user [] (map_values nm) =
           map (\<lambda>n. (n_id n, initial_record n)) (filter is_account (map_values nm))"
  using foldl_add_user [of "[]" "map_values nm"] assms keyed_ids [OF assms]
  by (simp add: keyed_def)

lemma map_of_keyed_values:
  "keyed f m \<Longrightarrow> map_of (map (\<lambda>v. (f v, g v)) (filter P (map_values m))) k =
     (case map_of m k of None \<Rightarrow> None | Some v \<Rightarrow> if P v then Some (g v) else None)"
  unfolding keyed_def map_values_def
proof (induction m)
  case Nil
  then show ?case by simp
next
  case (Cons e m)
  then have "k = fst e \<Longrightarrow> map_of m k = None"
    by (auto simp: map_of_eq_None_iff)
  moreover have "k = fst e \<Longrightarrow> map_of (map (\<lambda>v. (f v, g v)) (filter P (map snd m))) k = None"
    using Cons.prems by (fastforce simp: map_of_eq_None_iff image_iff)
  ultimately show ?case using Cons by (cases e) (auto split: option.splits)
qed

lemma labels_user_pool:
  "keyed n_id nm \<Longrightarrow>
   labels (map (\<lambda>n. (n_id n, initial_record n)) (filter is_account (map_values nm))) = node_labels nm"
  by (auto simp: labels_def node_labels_def fun_eq_iff map_get_def map_of_keyed_values
        initial_record_def split: option.splits)

text \<open>The projection, record by record.\<close>

lemma project_eq:
  assumes "keyed n_id nm"
  shows "project nm lm = map (tally nm (map_values lm)) (filter is_account (map_values nm))"
proof -
  let ?pool = "map (\<lambda>n. (n_id n, initial_record n)) (filter is_account (map_values nm))"
  have "distinct (map n_id (map_values nm))"
    using assms keyed_ids [OF assms] by (simp add: keyed_def)
  then have d: "distinct (map fst ?pool)"
    by (simp add: comp_def distinct_map_filter)
  show ?thesis
    unfolding project_def user_pool [OF assms] foldl_tally_link [OF d] labels_user_pool [OF assms]
    by (simp add: map_values_def comp_def tally_def)
qed

lemma tally_record_sourceType:
  "sourceType (tally_record (node_labels nm) nm k l u) =
     (if sourceType u = Discovered \<and> counts_as_gift nm l \<and> l_source l = k then Gifter
      else sourceType u)"
  by (auto simp: tally_record_def counts_as_gift_def Let_def split: option.splits)

lemma tally_record_sent:
  "totalGiftsSent (tally_record (node_labels nm) nm k l u) =
     totalGiftsSent u + (if counts_as_gift nm l \<and> l_source l = k then link_count l else 0)"
  by (auto simp: tally_record_def counts_as_gift_def Let_def split: option.splits)

lemma tally_record_received:
  "totalGiftsReceived (tally_record (node_labels nm) nm k l u) =
     totalGiftsReceived u + (if counts_as_gift nm l \<and> l_target l = k then link_count l else 0)"
  by (auto simp: tally_record_def counts_as_gift_def Let_def split: option.splits)

lemma tally_record_fixed [simp]:
  "p_id (tally_record lab nm k l u) = p_id u"
  "bio (tally_record lab nm k l u) = bio u"
  "discoveredFrom (tally_record lab nm k l u) = discoveredFrom u"
  "depth (tally_record lab nm k l u) = depth u"
  by (simp_all add: tally_record_def Let_def split: option.splits)

lemma foldl_tally_fixed:
  "p_id (foldl (tally_step nm k) u ls) = p_id u
   \<and> p_label (foldl (tally_step nm k) u ls) = p_label u
   \<and> bio (foldl (tally_step nm k) u ls) = bio u
   \<and> discoveredFrom (foldl (tally_step nm k) u ls) = discoveredFrom u"
proof (induction ls arbitrary: u)
  case Nil
  show ?case by simp
next
  case (Cons l ls)
  show ?case
    using Cons [of "tally_record (node_labels nm) nm k l u"] by simp
qed

lemma promote_once:
  "(if (if S = Discovered \<and> P then Gifter else S) = Discovered \<and> E then Gifter
    else (if S = Discovered \<and> P then Gifter else S))
   = (if S = Discovered \<and> (P \<or> E) then Gifter else S)"
  by (cases S) simp_all

lemma foldl_tally_sourceType:
  "sourceType (foldl (tally_step nm k) u ls) =
     (if sourceType u = Discovered \<and> (\<exists>l \<in> set ls. counts_as_gift nm l \<and> l_source l = k)
      then Gifter else sourceType u)"
proof (induction ls arbitrary: u)
  case Nil
  show ?case by simp
next
  case (Cons l ls)
  let ?u' = "tally_record (node_labels nm) nm k l u"
  have s': "sourceType ?u' =
      (if sourceType u = Discovered \<and> counts_as_gift nm l \<and> l_source l = k then Gifter
       else sourceType u)"
    by (rule tally_record_sourceType)
  have ih: "sourceType (foldl (tally_step nm k) ?u' ls) =
      (if sourceType ?u' = Discovered \<and> (\<exists>l \<in> set ls. counts_as_gift nm l \<and> l_source l = k)
       then Gifter else sourceType ?u')"
    by (rule Cons.IH)
  show ?case
    unfolding foldl_Cons ih s' promote_once by simp
qed

lemma foldl_tally_sent:
  "totalGiftsSent (foldl (tally_step nm k) u ls) =
     totalGiftsSent u
     + sum_list (map link_count (filter (\<lambda>l. counts_as_gift nm l \<and> l_source l = k) ls))"
  by (induction ls arbitrary: u) (auto simp: tally_record_sent)

lemma foldl_tally_received:
  "totalGiftsReceived (foldl (tally_step nm k) u ls) =
     totalGiftsReceived u
     + sum_list (map link_count (filter (\<lambda>l. counts_as_gift nm l \<and> l_target l = k) ls))"
  by (induction ls arbitrary: u) (auto simp: tally_record_received)

lemma tally_fixed:
  "p_id (tally nm ls n) = n_id n" "p_label (tally nm ls n) = n_label n"
  "bio (tally nm ls n) = n_title n" "discoveredFrom (tally nm ls n) = n_discoveredFrom n"
  by (simp_all add: tally_def foldl_tally_fixed initial_record_def)

lemma tally_sourceType:
  "sourceType (tally nm ls n) =
     (if n_isTarget n = Some True then Target
      else if \<exists>l \<in> set ls. counts_as_gift nm l \<and> l_source l = n_id n then Gifter
      else Discovered)"
proof -
  have "sourceType (initial_record n) = (if n_isTarget n = Some True then Target else Discovered)"
    by (simp add: initial_record_def)
  then show ?thesis
    unfolding tally_def foldl_tally_sourceType by auto
qed

lemma tally_sent:
  "totalGiftsSent (tally nm ls n) =
     sum_list (map link_count (filter (\<lambda>l. counts_as_gift nm l \<and> l_source l = n_id n) ls))"
  by (simp add: tally_def foldl_tally_sent initial_record_def)

lemma tally_received:
  "totalGiftsReceived (tally nm ls n) =
     sum_list (map link_count (filter (\<lambda>l. counts_as_gift nm l \<and> l_target l = n_id n) ls))"
  by (simp add: tally_def foldl_tally_received initial_record_def)

text \<open>After an update, the stored records are the projection of the stored graph.\<close>

lemma parsedUsers_process:
  assumes "\<forall>msg. u \<noteq> Log msg"
  shows "parsedUsers (processScanUpdate u state) =
           map (tally (node_map (processScanUpdate u state))
                  (links (graphData (processScanUpdate u state))))
             (filter is_account (nodes (graphData (processScanUpdate u state))))"
proof -
  have k: "keyed n_id (fst (merged u state))"
    using keyed_merged [of u state] by (simp add: keyed_maps_def)
  let ?s = "processScanUpdate u state"
  have "parsedUsers ?s = project (fst (merged u state)) (snd (merged u state))"
    and "nodes (graphData ?s) = map_values (fst (merged u state))"
    and "links (graphData ?s) = map_values (snd (merged u state))"
    by (simp_all add: process_not_Log [OF assms])
  then show ?thesis
    using node_map_process [OF assms, of state] project_eq [OF k, of "snd (merged u state)"]
    by presburger
qed

text \<open>
  C3 (as the code has it). The projected role follows the node's target flag, not its
  provenance: a record is a target exactly when the flag of its node is set; otherwise
  it is a gifter when some link that counts as a gift leaves its node (the target of the
  link is not a channel id and both ends have records), and discovered when none does.
  The roles are a function of the stored graph, whatever order of events built it.
\<close>

theorem role_follows_target_flag:
  assumes "\<forall>msg. u \<noteq> Log msg"
  shows "map (\<lambda>r. (p_id r, sourceType r)) (parsedUsers (processScanUpdate u state)) =
         map (\<lambda>n. (n_id n,
                    if n_isTarget n = Some True then Target
                    else if \<exists>l \<in> set (links (graphData (processScanUpdate u state))).
                              counts_as_gift (node_map (processScanUpdate u state)) l
                              \<and> l_source l = n_id n
                         then Gifter
                    else Discovered))
           (filter is_account (nodes (graphData (processScanUpdate u state))))"
  by (simp add: parsedUsers_process [OF assms] tally_fixed tally_sourceType comp_def)

theorem role_follows_target_flag_witness:
  "map (\<lambda>r. (p_id r, sourceType r)) (parsedUsers (processScanUpdate (UserFound found_again) carol_gave)) =
   map (\<lambda>n. (n_id n,
              if n_isTarget n = Some True then Target
              else if \<exists>l \<in> set (links (graphData (processScanUpdate (UserFound found_again) carol_gave))).
                        counts_as_gift (node_map (processScanUpdate (UserFound found_again) carol_gave)) l
                        \<and> l_source l = n_id n
                   then Gifter
              else Discovered))
     (filter is_account (nodes (graphData (processScanUpdate (UserFound found_again) carol_gave))))"
  using role_follows_target_flag [of "UserFound found_again" carol_gave] by simp

text \<open>
  A sender made by a gift has no provenance and is not a target; an account with a
  provenance and an outgoing gift link is a gifter until an account event without
  found-via id arrives for it, and a target from then on.
\<close>

theorem role_classification_counterexample:
  "map (\<lambda>r. (p_id r, discoveredFrom r, sourceType r))
     (parsedUsers (processScanUpdate (UserGifts gift_2_to_1) initial_state))
     = [(''u_2'', Absent, Discovered)]
   \<and> map (\<lambda>r. (p_id r, discoveredFrom r, sourceType r)) (parsedUsers carol_gave)
     = [(''u_7'', Via ''@alice'', Gifter), (''u_1'', Null, Target)]
   \<and> map (\<lambda>r. (p_id r, discoveredFrom r, sourceType r))
       (parsedUsers (processScanUpdate (UserFound found_again) carol_gave))
     = [(''u_7'', Via ''@alice'', Target), (''u_1'', Null, Target)]
   \<and> map (\<lambda>l. (l_source l, l_target l))
       (links (graphData (processScanUpdate (UserFound found_again) carol_gave)))
     = [(''u_7'', ''u_1'')]"
  by code_simp

subsection \<open>What an update does to a node that is already there\<close>



lemma merge_user_get_other:
  "k \<noteq> account_id (d_id d) \<Longrightarrow> map_get (merge_user d m) k = map_get m k"
  by (simp add: merge_user_eq map_get_map_set)



lemma merge_gift_get:
  "map_get (fst maps) k = Some n \<Longrightarrow>
   \<exists>lbl. map_get (fst (merge_gift t r maps s)) k = Some (n\<lparr>n_label := lbl\<rparr>)"
proof (cases "truthy_id s")
  case False
  assume "map_get (fst maps) k = Some n"
  then have "map_get (fst (merge_gift t r maps s)) k = Some (n\<lparr>n_label := n_label n\<rparr>)"
    using False by (simp add: merge_gift_def)
  then show ?thesis by blast
next
  case True
  assume g: "map_get (fst maps) k = Some n"
  show ?thesis
  proof (cases "k = account_id s")
    case False
    then have "map_get (fst (merge_gift t r maps s)) k = Some (n\<lparr>n_label := n_label n\<rparr>)"
      using True g
      by (auto simp: merge_gift_def Let_def map_get_map_set split: option.splits)
    then show ?thesis by blast
  next
    case k: True
    show ?thesis
    proof (cases "(case s of IdNum i \<Rightarrow> map_of r i | _ \<Rightarrow> None) \<noteq> None
                  \<and> startsWith (n_label n) ''U_''")
      case True
      then show ?thesis
        using \<open>truthy_id s\<close> g k
        by (auto simp: merge_gift_def Let_def map_get_map_set split: option.splits)
    next
      case False
      then have "map_get (fst (merge_gift t r maps s)) k = Some (n\<lparr>n_label := n_label n\<rparr>)"
        using \<open>truthy_id s\<close> g k
        by (auto simp: merge_gift_def Let_def map_get_map_set split: option.splits)
      then show ?thesis by blast
    qed
  qed
qed


lemma foldl_invariant:
  assumes "\<And>a x. P a \<Longrightarrow> P (f a x)"
  shows "P a \<Longrightarrow> P (foldl f a xs)"
  by (induction xs arbitrary: a) (simp_all add: assms)


lemma node_map_Log: "node_map (processScanUpdate (Log msg) state) = node_map state"
  by (simp add: processScanUpdate_def node_map_def)

lemma link_map_Log: "link_map (processScanUpdate (Log msg) state) = link_map state"
  by (simp add: processScanUpdate_def link_map_def)


subsection \<open>Looking a record up by its id\<close>

lemma filter_key_values:
  "keyed f m \<Longrightarrow> map_of m k = Some v \<Longrightarrow> filter (\<lambda>x. f x = k) (map_values m) = [v]"
  unfolding keyed_def map_values_def
proof (induction m)
  case Nil
  then show ?case by simp
next
  case (Cons e m)
  show ?case
  proof (cases "fst e = k")
    case True
    then have "\<forall>x \<in> set m. f (snd x) \<noteq> k" using Cons.prems by (auto simp: image_iff)
    then have "filter (\<lambda>x. f x = k) (map snd m) = []"
      by (auto simp: filter_empty_conv)
    then show ?thesis using True Cons.prems by auto
  next
    case False
    then show ?thesis using Cons by auto
  qed
qed

lemma record_lookup:
  assumes nl: "\<forall>msg. u \<noteq> Log msg"
    and g: "map_get (node_map (processScanUpdate u state)) k = Some n"
  shows "filter (\<lambda>r. p_id r = k) (parsedUsers (processScanUpdate u state)) =
           (if is_account n
            then [tally (node_map (processScanUpdate u state))
                    (links (graphData (processScanUpdate u state))) n]
            else [])"
proof -
  let ?s = "processScanUpdate u state"
  let ?T = "tally (node_map ?s) (links (graphData ?s))"
  have k: "keyed n_id (node_map ?s)" by (rule keyed_node_map)
  have nodes: "nodes (graphData ?s) = map_values (node_map ?s)"
    by (simp add: node_map_process [OF nl]) (simp add: process_not_Log [OF nl])
  have "filter (\<lambda>r. p_id r = k) (parsedUsers ?s)
          = map ?T (filter (\<lambda>n. n_id n = k) (filter is_account (nodes (graphData ?s))))"
    by (simp add: parsedUsers_process [OF nl] filter_map comp_def tally_fixed)
  also have "\<dots> = map ?T (filter is_account (filter (\<lambda>n. n_id n = k) (map_values (node_map ?s))))"
    by (simp add: nodes conj_commute)
  also have "\<dots> = map ?T (filter is_account [n])"
    using filter_key_values [OF k, of k n] g by (simp add: map_get_def)
  finally show ?thesis by simp
qed


subsection \<open>Events without identifier\<close>

lemma merge_gift_falsy: "\<not> truthy_id s \<Longrightarrow> merge_gift t r maps s = maps"
  by (simp add: merge_gift_def)







subsection \<open>Labels\<close>

text \<open>
  C6. A node that still carries its placeholder label keeps it when an account event
  brings a first name and no username (line 159 assigns the label only for a username),
  whereas the gift path replaces a placeholder by the first name (lines 224--229).
\<close>

theorem placeholder_kept_despite_first_name:
  "map n_label (nodes (graphData (processScanUpdate (UserFound unnamed) initial_state)))
     = [''U_1'']
   \<and> map n_label (nodes (graphData (processScanUpdate (UserFound first_name_only)
                      (processScanUpdate (UserFound unnamed) initial_state))))
     = [''U_1'']
   \<and> map n_label (nodes (graphData (processScanUpdate (UserGifts gift_resolving_first_name)
                      (processScanUpdate (UserFound unnamed) initial_state))))
     = [''Bob'']"
  by code_simp

subsection \<open>The projection is a function of the stored graph\<close>

text \<open>
  C9. Running the projection again on the graph that an update stored (an update that
  merges nothing rebuilds both maps from the arrays and projects them) gives the same
  store: the same records with the same fields in the same order. The records are those
  of the nodes that are not channels, in the order of the node array.
\<close>

theorem projection_deterministic:
  assumes "\<forall>msg. u \<noteq> Log msg"
  shows "processScanUpdate OtherUpdate (processScanUpdate u state) = processScanUpdate u state
       \<and> map p_id (parsedUsers (processScanUpdate u state))
           = map n_id (filter is_account (nodes (graphData (processScanUpdate u state))))"
proof
  let ?s = "processScanUpdate u state"
  have m: "merged OtherUpdate ?s = merged u state"
    by (simp add: merged_def [of OtherUpdate] node_map_process [OF assms] link_map_process [OF assms])
  have s: "?s = state\<lparr>graphData := \<lparr>nodes = map_values (fst (merged u state)),
                                      links = map_values (snd (merged u state))\<rparr>,
                       parsedUsers := project (fst (merged u state)) (snd (merged u state)),
                       logs := logs state\<rparr>"
    by (rule process_not_Log [OF assms])
  have "processScanUpdate OtherUpdate ?s =
          ?s\<lparr>graphData := \<lparr>nodes = map_values (fst (merged OtherUpdate ?s)),
                               links = map_values (snd (merged OtherUpdate ?s))\<rparr>,
              parsedUsers := project (fst (merged OtherUpdate ?s)) (snd (merged OtherUpdate ?s)),
              logs := logs ?s\<rparr>"
    by (rule process_not_Log) simp
  also have "\<dots> = ?s\<lparr>graphData := \<lparr>nodes = map_values (fst (merged u state)),
                                      links = map_values (snd (merged u state))\<rparr>,
                     parsedUsers := project (fst (merged u state)) (snd (merged u state)),
                     logs := logs ?s\<rparr>"
    by (simp only: m)
  also have "\<dots> = ?s"
    by (simp add: s)
  finally show "processScanUpdate OtherUpdate ?s = ?s" .
  show "map p_id (parsedUsers ?s) = map n_id (filter is_account (nodes (graphData ?s)))"
    by (simp add: parsedUsers_process [OF assms] tally_fixed comp_def)
qed

theorem projection_deterministic_witness:
  "processScanUpdate OtherUpdate (processScanUpdate (UserFound found_again) carol_found)
     = processScanUpdate (UserFound found_again) carol_found
   \<and> map p_id (parsedUsers (processScanUpdate (UserFound found_again) carol_found))
       = map n_id (filter is_account
           (nodes (graphData (processScanUpdate (UserFound found_again) carol_found))))"
  using projection_deterministic [of "UserFound found_again" carol_found] by simp

subsection \<open>Account ids and link keys\<close>

lemma string_of_nat_digits:
  "string_of_nat n \<noteq> [] \<and> set (string_of_nat n) \<subseteq> set ''0123456789''"
proof (induction n rule: string_of_nat.induct)
  case (1 n)
  have d: "\<And>k. k < 10 \<Longrightarrow> digit_char k \<in> set ''0123456789''"
    unfolding digit_char_def by (rule nth_mem) simp
  show ?case
  proof (cases "n < 10")
    case True
    then show ?thesis using d [of n] by (subst string_of_nat.simps, subst string_of_nat.simps) simp
  next
    case False
    have "n mod 10 < 10" by simp
    then have "digit_char (n mod 10) \<in> set ''0123456789''" by (rule d)
    then show ?thesis
      using False "1.IH" by (subst string_of_nat.simps, subst string_of_nat.simps) simp
  qed
qed

lemma str_id_shape: "str_id i \<noteq> [] \<and> CHR ''-'' \<notin> set (tl (str_id i))"
proof (cases i)
  case IdUndefined
  then show ?thesis by simp
next
  case IdNull
  then show ?thesis by simp
next
  case (IdNum j)
  have "CHR ''-'' \<notin> set (string_of_nat n)" for n
    using string_of_nat_digits [of n] by auto
  moreover have "CHR ''-'' \<notin> set (tl (string_of_nat n))" for n
    using \<open>\<And>n. CHR ''-'' \<notin> set (string_of_nat n)\<close> [of n] string_of_nat_digits [of n]
    by (cases "string_of_nat n") auto
  ultimately show ?thesis
    using IdNum string_of_nat_digits by (simp add: string_of_int_def)
qed

lemma account_key_account_id: "account_key (account_id i)"
  using str_id_shape [of i] by (simp add: account_key_def account_id_def startsWith_def)

lemma account_key_split:
  "account_key s \<Longrightarrow> \<exists>b. s = ''u_'' @ b \<and> b \<noteq> [] \<and> CHR ''-'' \<notin> set (tl b)"
  unfolding account_key_def startsWith_def
  by (metis append_take_drop_id length_Cons list.size(3) numeral_2_eq_2)

lemma body_prefix:
  assumes "b @ CHR ''-'' # t = b' @ CHR ''-'' # t'"
    and "b \<noteq> []" and "CHR ''-'' \<notin> set (tl b)"
    and "b' \<noteq> []" and "CHR ''-'' \<notin> set (tl b')"
  shows "b = b' \<and> t = t'"
proof -
  from assms(1) obtain us where
    "(b = b' @ us \<and> us @ CHR ''-'' # t = CHR ''-'' # t') \<or>
     (b @ us = b' \<and> CHR ''-'' # t = us @ CHR ''-'' # t')"
    by (auto simp: append_eq_append_conv2)
  then show ?thesis
  proof
    assume h: "b = b' @ us \<and> us @ CHR ''-'' # t = CHR ''-'' # t'"
    show ?thesis
    proof (cases us)
      case Nil
      then show ?thesis using h by simp
    next
      case (Cons c cs)
      then have "c = CHR ''-''" using h by simp
      then have "CHR ''-'' \<in> set (tl b)" using h Cons assms(4) by (cases b') auto
      then show ?thesis using assms(3) by simp
    qed
  next
    assume h: "b @ us = b' \<and> CHR ''-'' # t = us @ CHR ''-'' # t'"
    show ?thesis
    proof (cases us)
      case Nil
      then show ?thesis using h by simp
    next
      case (Cons c cs)
      then have "c = CHR ''-''" using h by simp
      then have "CHR ''-'' \<in> set (tl b')" using h Cons assms(2) by (cases b) auto
      then show ?thesis using assms(5) by simp
    qed
  qed
qed

text \<open>Two links between account sources have the same key only if they join the same ends.\<close>

lemma link_key_inj:
  assumes "account_key s" and "account_key s'" and "link_key s t = link_key s' t'"
  shows "s = s' \<and> t = t'"
proof -
  obtain b where b: "s = ''u_'' @ b" "b \<noteq> []" "CHR ''-'' \<notin> set (tl b)"
    using account_key_split [OF assms(1)] by blast
  obtain b' where b': "s' = ''u_'' @ b'" "b' \<noteq> []" "CHR ''-'' \<notin> set (tl b')"
    using account_key_split [OF assms(2)] by blast
  have "b @ CHR ''-'' # t = b' @ CHR ''-'' # t'"
    using assms(3) b(1) b'(1) by (simp add: link_key_def)
  then have "b = b' \<and> t = t'"
    using b(2,3) b'(2,3) by (rule body_prefix)
  then show ?thesis using b(1) b'(1) by simp
qed

subsection \<open>Well-formed graphs\<close>

lemma values_map_set: "set (map_values (map_set k v m)) \<subseteq> insert v (set (map_values m))"
  using set_map_set_subset [of k v m] by (auto simp: map_values_def)

lemma wf_link_mono:
  "(\<And>k. map_has nm k \<Longrightarrow> map_has nm' k) \<Longrightarrow> wf_link nm l \<Longrightarrow> wf_link nm' l"
  by (simp add: wf_link_def)

lemma wf_maps_nodes:
  assumes "\<And>k. map_has (fst maps) k \<Longrightarrow> map_has nm' k" and "wf_maps maps"
  shows "wf_maps (nm', snd maps)"
  using assms(2) wf_link_mono [of "fst maps" nm', OF assms(1)]
  by (auto simp: wf_maps_def list_all_iff)

lemma wf_maps_link:
  assumes "wf_maps maps" and "wf_link (fst maps) l"
  shows "wf_maps (fst maps, map_set k l (snd maps))"
  using assms values_map_set [of k l "snd maps"]
  by (auto simp: wf_maps_def list_all_iff)

lemma map_has_merge_user: "map_has m k \<Longrightarrow> map_has (merge_user d m) k"
  by (simp add: merge_user_eq map_has_map_set)

lemma map_has_merge_user_id: "map_has (merge_user d m) (account_id (d_id d))"
  by (simp add: merge_user_eq map_has_map_set)

lemma wf_maps_merge_user: "wf_maps maps \<Longrightarrow> wf_maps (merge_user d (fst maps), snd maps)"
  by (rule wf_maps_nodes) (simp_all add: map_has_merge_user)

lemma map_has_link_channel:
  "map_has (fst maps) k \<Longrightarrow> map_has (fst (link_channel uid maps clink)) k"
  by (simp add: link_channel_def Let_def map_has_map_set)

lemma wf_maps_link_channel:
  assumes "wf_maps maps" and "account_key uid" and "map_has (fst maps) uid"
  shows "wf_maps (link_channel uid maps clink)"
proof -
  let ?nm' = "fst (link_channel uid maps clink)"
  let ?l = "\<lparr>l_source = uid, l_target = channel_id clink, l_value = Some 1, l_label = None\<rparr>"
  have a: "wf_maps (?nm', snd maps)"
    by (rule wf_maps_nodes [OF _ assms(1)]) (rule map_has_link_channel)
  have "wf_link ?nm' ?l"
    using assms(2,3) by (simp add: wf_link_def map_has_link_channel)
  then have "wf_maps (?nm', map_set (link_key uid (channel_id clink)) ?l (snd maps))"
    using wf_maps_link [OF a] by simp
  with a show ?thesis
    by (cases "map_has (snd maps) (link_key uid (channel_id clink))")
       (simp_all add: link_channel_def Let_def prod_eq_iff)
qed

lemma foldl_link_channel_wf:
  "wf_maps maps \<Longrightarrow> account_key uid \<Longrightarrow> map_has (fst maps) uid \<Longrightarrow>
   wf_maps (foldl (link_channel uid) maps clinks)"
  by (induction clinks arbitrary: maps)
     (simp_all add: wf_maps_link_channel map_has_link_channel)

lemma map_has_merge_gift:
  "map_has (fst maps) k \<Longrightarrow> map_has (fst (merge_gift t r maps s)) k"
  using merge_gift_get [of maps k _ t r s]
  by (auto simp: map_has_def map_get_def)

lemma map_has_merge_gift_sender:
  "truthy_id s \<Longrightarrow> map_has (fst (merge_gift t r maps s)) (account_id s)"
  by (auto simp: merge_gift_def Let_def map_has_def map_get_def map_of_map_set
      split: option.splits)

lemma snd_merge_gift:
  "truthy_id s \<Longrightarrow>
   snd (merge_gift t r maps s) =
     map_set (link_key (account_id s) t)
       (case map_get (snd maps) (link_key (account_id s) t) of
          None \<Rightarrow> \<lparr>l_source = account_id s, l_target = t, l_value = Some 1,
                    l_label = Some ''1 GIFT''\<rparr>
        | Some l \<Rightarrow>
            l\<lparr>l_value := Some ((case l_value l of None \<Rightarrow> 0 | Some n \<Rightarrow> n) + 1),
              l_label := Some (string_of_nat ((case l_value l of None \<Rightarrow> 0 | Some n \<Rightarrow> n) + 1)
                               @ '' GIFTS'')\<rparr>)
       (snd maps)"
  by (simp add: merge_gift_def Let_def split: option.splits)

lemma wf_maps_lookup:
  "wf_maps maps \<Longrightarrow> map_get (snd maps) k = Some l \<Longrightarrow> wf_link (fst maps) l"
  by (fastforce simp: wf_maps_def list_all_iff map_values_def map_get_def dest!: map_of_SomeD)

lemma wf_maps_merge_gift:
  assumes "wf_maps maps"
  shows "wf_maps (merge_gift t r maps s)"
proof (cases "truthy_id s")
  case False
  then show ?thesis using assms by (simp add: merge_gift_def)
next
  case True
  let ?m' = "merge_gift t r maps s"
  let ?k = "link_key (account_id s) t"
  have a: "wf_maps (fst ?m', snd maps)"
    by (rule wf_maps_nodes [OF _ assms]) (rule map_has_merge_gift)
  have src: "map_has (fst ?m') (account_id s)"
    by (rule map_has_merge_gift_sender [OF True])
  show ?thesis
  proof (cases "map_get (snd maps) ?k")
    case None
    have "wf_link (fst ?m') \<lparr>l_source = account_id s, l_target = t, l_value = Some 1,
                            l_label = Some ''1 GIFT''\<rparr>"
      using src by (simp add: wf_link_def account_key_account_id)
    then have "wf_maps (fst ?m', snd ?m')"
      using wf_maps_link [OF a, of _ ?k] None
      by (simp add: snd_merge_gift [OF True])
    then show ?thesis by simp
  next
    case (Some l)
    have "wf_link (fst ?m') l"
      using wf_maps_lookup [OF a, of ?k l] Some by simp
    then have "wf_link (fst ?m')
        (l\<lparr>l_value := Some ((case l_value l of None \<Rightarrow> 0 | Some n \<Rightarrow> n) + 1),
           l_label := Some (string_of_nat ((case l_value l of None \<Rightarrow> 0 | Some n \<Rightarrow> n) + 1)
                            @ '' GIFTS'')\<rparr>)"
      by (simp add: wf_link_def)
    then have "wf_maps (fst ?m', snd ?m')"
      using wf_maps_link [OF a, of _ ?k] Some
      by (simp add: snd_merge_gift [OF True])
    then show ?thesis by simp
  qed
qed

lemma wf_maps_merge_update: "wf_maps maps \<Longrightarrow> wf_maps (merge_update u maps)"
proof (cases u)
  case (UserFound d)
  then show "wf_maps maps \<Longrightarrow> ?thesis" by (simp add: wf_maps_merge_user)
next
  case (UserDetail d)
  assume "wf_maps maps"
  then have "wf_maps (merge_user d (fst maps), snd maps)" by (rule wf_maps_merge_user)
  then show ?thesis
    using UserDetail
    by (auto split: option.splits
        intro!: foldl_link_channel_wf account_key_account_id map_has_merge_user_id)
next
  case (UserGifts g)
  assume "wf_maps maps"
  then show ?thesis
    using UserGifts by (auto intro: foldl_invariant wf_maps_merge_gift)
qed simp_all

lemma wf_state_process:
  assumes "wf_state state"
  shows "wf_state (processScanUpdate u state)"
proof (cases "\<exists>msg. u = Log msg")
  case True
  then show ?thesis
    using assms by (auto simp: wf_state_def node_map_Log link_map_Log) (simp_all add: processScanUpdate_def)
next
  case False
  then have nl: "\<forall>msg. u \<noteq> Log msg" by simp
  let ?s = "processScanUpdate u state"
  have k: "keyed n_id (fst (merged u state))" "keyed l_key (snd (merged u state))"
    using keyed_merged [of u state] by (simp_all add: keyed_maps_def)
  have g: "nodes (graphData ?s) = map_values (fst (merged u state))"
    "links (graphData ?s) = map_values (snd (merged u state))"
    "parsedUsers ?s = project (fst (merged u state)) (snd (merged u state))"
    by (simp_all add: process_not_Log [OF nl])
  have "wf_maps (merged u state)"
    unfolding merged_def using assms by (intro wf_maps_merge_update) (simp add: wf_state_def)
  then show ?thesis
    using k keyed_ids [OF k(1)] keyed_ids [OF k(2)]
    by (simp add: wf_state_def g node_map_process [OF nl] link_map_process [OF nl] keyed_def)
qed

lemma wf_state_startScan: "wf_state (startScan state)"
  by (simp add: wf_state_def startScan_def node_map_def link_map_def new_Map_def wf_maps_def
      map_values_def project_def)

lemma wf_state_initial: "wf_state initial_state"
  by (simp add: wf_state_def initial_state_def node_map_def link_map_def new_Map_def wf_maps_def
      map_values_def project_def)

text \<open>The other actions of the store and of the queue keep the store well-formed too.\<close>

lemma wf_state_frame:
  assumes "wf_state state"
  shows "wf_state (stopScan state)" and "wf_state (addLog msg state)"
    and "wf_state (setScanQueue queue state)"
  using assms
  by (simp_all add: wf_state_def stopScan_def addLog_def setScanQueue_def node_map_def link_map_def)

lemma wf_state_startScanForId: "wf_state state \<Longrightarrow> wf_state (startScanForId chatId state)"
  by (simp add: startScanForId_def wf_state_frame wf_state_startScan)

lemma wf_state_onclose_timeout: "wf_state state \<Longrightarrow> wf_state (onclose_timeout state)"
  by (simp add: onclose_timeout_def wf_state_frame wf_state_startScanForId split: list.splits)

lemma wf_state_autostart: "wf_state state \<Longrightarrow> wf_state (useEffect_autostart state)"
  by (simp add: useEffect_autostart_def wf_state_frame wf_state_startScanForId split: list.splits)

text \<open>Every state that the store takes is well-formed.\<close>

lemma reachable_wf_state: "reachable state \<Longrightarrow> wf_state state"
proof (induction rule: reachable.induct)
  case created
  show ?case by (rule wf_state_initial)
next
  case (update state u)
  then show ?case by (simp add: wf_state_process)
next
  case (started state)
  show ?case by (rule wf_state_startScan)
next
  case (stopped state)
  then show ?case by (simp add: wf_state_frame)
next
  case (logged state msg)
  then show ?case by (simp add: wf_state_frame)
next
  case (queued state queue)
  then show ?case by (simp add: wf_state_frame)
next
  case (target_started state chatId)
  then show ?case by (simp add: wf_state_startScanForId)
next
  case (stream_closed state)
  then show ?case by (simp add: wf_state_onclose_timeout)
next
  case (autostarted state)
  then show ?case by (simp add: wf_state_autostart)
qed

subsection \<open>Membership links\<close>

lemma funpow_idem:
  assumes "\<And>x. f (f x) = f x" and "0 < n"
  shows "(f ^^ n) x = f x"
  using assms(2)
proof (induction n)
  case 0
  then show ?case by simp
next
  case (Suc n)
  then show ?case by (cases "n = 0") (simp_all add: assms(1))
qed

lemma filter_link_ends:
  assumes "wf_maps maps" and "account_key s"
  shows "filter (\<lambda>l. l_source l = s \<and> l_target l = t) (map_values (snd maps))
           = filter (\<lambda>l. l_key l = link_key s t) (map_values (snd maps))"
proof (rule filter_cong [OF refl])
  fix l
  assume "l \<in> set (map_values (snd maps))"
  then have "account_key (l_source l)"
    using assms(1) by (simp add: wf_maps_def list_all_iff wf_link_def)
  then show "(l_source l = s \<and> l_target l = t) = (l_key l = link_key s t)"
    using link_key_inj [OF _ assms(2), of "l_source l" "l_target l" t] by auto
qed

lemma the_link:
  assumes "wf_maps maps" and "keyed l_key (snd maps)" and "account_key s"
    and "map_get (snd maps) (link_key s t) = Some l"
  shows "filter (\<lambda>l. l_source l = s \<and> l_target l = t) (map_values (snd maps)) = [l]"
  using filter_key_values [OF assms(2), of "link_key s t" l] assms(4)
  by (simp add: filter_link_ends [OF assms(1,3)] map_get_def)

lemma merged_detail_linked:
  assumes "d_channel_links d = Some clinks" and "clink \<in> set clinks"
  shows "linked (account_id (d_id d)) (merged (UserDetail d) state) clink"
  using assms by (simp add: merged_def foldl_link_channel_linked)

text \<open>
  C7. In a well-formed store, after an account event that names a channel handle has
  been applied any number of times (at least once), the link array has exactly one
  link from the account to the channel and the node array has exactly one node for
  the channel; one more application leaves both arrays as they are.
\<close>

theorem membership_idempotent:
  assumes "wf_state state" and "d_channel_links d = Some clinks" and "clink \<in> set clinks"
    and "0 < n"
  shows "length (filter (\<lambda>l. l_source l = account_id (d_id d) \<and> l_target l = channel_id clink)
                  (links (graphData ((processScanUpdate (UserDetail d) ^^ n) state)))) = 1
       \<and> length (filter (\<lambda>m. n_id m = channel_id clink)
                  (nodes (graphData ((processScanUpdate (UserDetail d) ^^ n) state)))) = 1
       \<and> graphData ((processScanUpdate (UserDetail d) ^^ Suc n) state)
           = graphData ((processScanUpdate (UserDetail d) ^^ n) state)"
proof -
  let ?u = "UserDetail d"
  let ?uid = "account_id (d_id d)" and ?cid = "channel_id clink"
  let ?m = "merged ?u state"
  let ?s = "processScanUpdate ?u state"
  have nl: "\<forall>msg. ?u \<noteq> Log msg" by simp
  have idem: "\<And>x. processScanUpdate ?u (processScanUpdate ?u x) = processScanUpdate ?u x"
    by (rule process_idem, simp, rule merge_update_user_idem [of _ d], simp)
  have n: "(processScanUpdate ?u ^^ n) state = ?s"
    by (rule funpow_idem [OF idem assms(4)])
  have sn: "(processScanUpdate ?u ^^ Suc n) state = ?s"
    by (rule funpow_idem [OF idem]) simp
  have k: "keyed n_id (fst ?m)" "keyed l_key (snd ?m)"
    using keyed_merged [of ?u state] by (simp_all add: keyed_maps_def)
  have wf: "wf_maps ?m"
    unfolding merged_def using assms(1) by (intro wf_maps_merge_update) (simp add: wf_state_def)
  have g: "nodes (graphData ?s) = map_values (fst ?m)" "links (graphData ?s) = map_values (snd ?m)"
    by (simp_all add: process_not_Log [OF nl])
  have l: "linked ?uid ?m clink"
    by (rule merged_detail_linked [OF assms(2,3)])
  obtain c where c: "map_of (fst ?m) ?cid = Some c"
    using l by (auto simp: linked_def map_has_def)
  obtain e where e: "map_get (snd ?m) (link_key ?uid ?cid) = Some e"
    using l by (auto simp: linked_def map_has_def map_get_def)
  have "filter (\<lambda>l. l_source l = ?uid \<and> l_target l = ?cid) (links (graphData ?s)) = [e]"
    unfolding g by (rule the_link [OF wf k(2) account_key_account_id e])
  moreover have "filter (\<lambda>m. n_id m = ?cid) (nodes (graphData ?s)) = [c]"
    unfolding g by (rule filter_key_values [OF k(1) c])
  ultimately show ?thesis
    by (simp only: n sn) simp
qed

lemma newschannel_links_links:
  "d_channel_links newschannel_links = Some [''newschannel'', ''other'']"
  by (simp add: newschannel_links_def)

theorem membership_idempotent_witness:
  "length (filter (\<lambda>l. l_source l = account_id (d_id newschannel_links)
                        \<and> l_target l = channel_id ''newschannel'')
            (links (graphData ((processScanUpdate (UserDetail newschannel_links) ^^ 2)
                                 initial_state)))) = 1
   \<and> length (filter (\<lambda>m. n_id m = channel_id ''newschannel'')
            (nodes (graphData ((processScanUpdate (UserDetail newschannel_links) ^^ 2)
                                 initial_state)))) = 1
   \<and> graphData ((processScanUpdate (UserDetail newschannel_links) ^^ Suc 2) initial_state)
       = graphData ((processScanUpdate (UserDetail newschannel_links) ^^ 2) initial_state)"
  by (rule membership_idempotent [OF wf_state_initial newschannel_links_links]) simp_all

subsection \<open>Totals as sums over the links\<close>

lemma sum_list_filter_if:
  "sum_list (map f (filter P xs)) = sum_list (map (\<lambda>x. if P x then f x else (0::nat)) xs)"
  by (induction xs) simp_all

lemma project_lookup:
  assumes "keyed n_id nm"
  shows "filter (\<lambda>r. p_id r = k) (project nm lm) =
           (case map_get nm k of
              None \<Rightarrow> []
            | Some n \<Rightarrow> if is_account n then [tally nm (map_values lm) n] else [])"
proof -
  let ?T = "tally nm (map_values lm)"
  have a: "filter (\<lambda>r. p_id r = k) (project nm lm)
          = map ?T (filter is_account (filter (\<lambda>n. n_id n = k) (map_values nm)))"
    by (simp add: project_eq [OF assms] filter_map comp_def tally_fixed conj_commute)
  show ?thesis
  proof (cases "map_get nm k")
    case None
    then have "k \<notin> set (map fst nm)"
      by (simp add: map_get_def map_of_eq_None_iff)
    then have "k \<notin> set (map n_id (map_values nm))"
      by (simp add: keyed_ids [OF assms])
    then have "filter (\<lambda>n. n_id n = k) (map_values nm) = []"
      by (auto simp: filter_empty_conv)
    then show ?thesis using None a by simp
  next
    case (Some n)
    then show ?thesis
      using a filter_key_values [OF assms, of k n] by (simp add: map_get_def)
  qed
qed

lemma no_record_no_gift:
  "node_labels nm k = None \<Longrightarrow> sent_sum nm k l = 0 \<and> received_sum nm k l = 0"
  by (auto simp: sent_sum_def received_sum_def counts_as_gift_def)

lemma node_labels_None:
  "node_labels nm k = None \<longleftrightarrow> (case map_get nm k of None \<Rightarrow> True | Some n \<Rightarrow> \<not> is_account n)"
  by (simp add: node_labels_def split: option.splits)

lemma node_labels_Some:
  "node_labels nm k \<noteq> None \<longleftrightarrow> (\<exists>n. map_get nm k = Some n \<and> is_account n)"
  by (auto simp: node_labels_def split: option.splits)

lemma no_record_lookup:
  assumes "keyed n_id nm" and "node_labels nm k = None"
  shows "filter (\<lambda>r. p_id r = k) (project nm lm) = []"
proof (cases "map_get nm k")
  case None
  then show ?thesis by (simp add: project_lookup [OF assms(1)])
next
  case (Some n)
  then have "\<not> is_account n"
    using assms(2) by (simp add: node_labels_def split: if_splits)
  then show ?thesis using Some by (simp add: project_lookup [OF assms(1)])
qed

lemma sent_total_project:
  assumes "keyed n_id nm"
  shows "sent_total (project nm lm) k = sum_list (map (sent_sum nm k) (map_values lm))"
proof (cases "node_labels nm k = None")
  case True
  then have "sum_list (map (sent_sum nm k) (map_values lm)) = 0"
    by (simp add: no_record_no_gift)
  moreover have "filter (\<lambda>r. p_id r = k) (project nm lm) = []"
    by (rule no_record_lookup [OF assms True])
  ultimately show ?thesis by (simp add: sent_total_def)
next
  case False
  then obtain n where "map_get nm k = Some n" and "is_account n"
    unfolding node_labels_Some by blast
  moreover from this have "n_id n = k"
    using map_get_keyed [OF assms] by simp
  ultimately show ?thesis
    by (simp add: sent_total_def project_lookup [OF assms] tally_sent sum_list_filter_if
        sent_sum_def [abs_def])
qed

lemma received_total_project:
  assumes "keyed n_id nm"
  shows "received_total (project nm lm) k = sum_list (map (received_sum nm k) (map_values lm))"
proof (cases "node_labels nm k = None")
  case True
  then have "sum_list (map (received_sum nm k) (map_values lm)) = 0"
    by (simp add: no_record_no_gift)
  moreover have "filter (\<lambda>r. p_id r = k) (project nm lm) = []"
    by (rule no_record_lookup [OF assms True])
  ultimately show ?thesis by (simp add: received_total_def)
next
  case False
  then obtain n where "map_get nm k = Some n" and "is_account n"
    unfolding node_labels_Some by blast
  moreover from this have "n_id n = k"
    using map_get_keyed [OF assms] by simp
  ultimately show ?thesis
    by (simp add: received_total_def project_lookup [OF assms] tally_received sum_list_filter_if
        received_sum_def [abs_def])
qed

lemma sum_map_set:
  "distinct (map fst m) \<Longrightarrow>
   sum_list (map g (map_values (map_set k v m))) + (case map_of m k of None \<Rightarrow> 0 | Some old \<Rightarrow> g old)
     = sum_list (map g (map_values m)) + (g v :: nat)"
proof (induction m)
  case Nil
  then show ?case by (simp add: map_values_def)
next
  case (Cons e m)
  show ?case
  proof (cases "fst e = k")
    case True
    then show ?thesis by (cases e) (simp add: map_values_def)
  next
    case False
    then show ?thesis using Cons by (cases e) (simp add: map_values_def)
  qed
qed

subsection \<open>One gift\<close>

lemma merge_gift_get_other:
  "k \<noteq> account_id s \<Longrightarrow> map_get (fst (merge_gift t r maps s)) k = map_get (fst maps) k"
  by (auto simp: merge_gift_def Let_def map_get_map_set split: option.splits)

lemma merge_gift_sender_account:
  assumes "truthy_id s" and "\<forall>n. map_get (fst maps) (account_id s) = Some n \<longrightarrow> is_account n"
  shows "node_labels (fst (merge_gift t r maps s)) (account_id s) \<noteq> None"
proof (cases "map_get (fst maps) (account_id s)")
  case None
  then show ?thesis
    using assms(1) unfolding node_labels_Some
    by (simp add: merge_gift_def Let_def map_get_map_set is_account_def)
next
  case (Some n)
  then obtain lbl where "map_get (fst (merge_gift t r maps s)) (account_id s) = Some (n\<lparr>n_label := lbl\<rparr>)"
    using merge_gift_get by blast
  moreover have "is_account (n\<lparr>n_label := lbl\<rparr>)"
    using assms(2) Some by (simp add: is_account_def)
  ultimately show ?thesis unfolding node_labels_Some by blast
qed

lemma merge_gift_has_record:
  assumes "node_labels (fst maps) k \<noteq> None"
  shows "node_labels (fst (merge_gift t r maps s)) k \<noteq> None"
proof -
  obtain n where n: "map_get (fst maps) k = Some n" "is_account n"
    using assms unfolding node_labels_Some by blast
  then obtain lbl where "map_get (fst (merge_gift t r maps s)) k = Some (n\<lparr>n_label := lbl\<rparr>)"
    using merge_gift_get by blast
  moreover have "is_account (n\<lparr>n_label := lbl\<rparr>)"
    using n(2) by (simp add: is_account_def)
  ultimately show ?thesis unfolding node_labels_Some by blast
qed

lemma merge_gift_has_record_iff:
  assumes "truthy_id s" and "\<forall>n. map_get (fst maps) (account_id s) = Some n \<longrightarrow> is_account n"
  shows "(node_labels (fst (merge_gift t r maps s)) k \<noteq> None)
           = (k = account_id s \<or> node_labels (fst maps) k \<noteq> None)"
proof (cases "k = account_id s")
  case True
  then show ?thesis using merge_gift_sender_account [OF assms] by simp
next
  case False
  then show ?thesis
    by (simp add: node_labels_def merge_gift_get_other)
qed

lemma account_id_not_channel: "\<not> startsWith (account_id i) ''c_''"
  by (simp add: startsWith_def account_id_def)

lemma old_links_count_alike:
  assumes wf: "wf_maps maps" and s: "truthy_id s"
    and a: "\<forall>n. map_get (fst maps) (account_id s) = Some n \<longrightarrow> is_account n"
    and r: "node_labels (fst maps) t \<noteq> None"
    and l: "l \<in> set (map_values (snd maps))"
  shows "sent_sum (fst (merge_gift t r' maps s)) (account_id s) l = sent_sum (fst maps) (account_id s) l"
    and "received_sum (fst (merge_gift t r' maps s)) t l = received_sum (fst maps) t l"
proof -
  let ?sid = "account_id s"
  let ?nm' = "fst (merge_gift t r' maps s)"
  have rec: "\<And>k. (node_labels ?nm' k \<noteq> None) = (k = ?sid \<or> node_labels (fst maps) k \<noteq> None)"
    by (rule merge_gift_has_record_iff [OF s a])
  have src: "map_has (fst maps) (l_source l)"
    using wf l by (simp add: wf_maps_def list_all_iff wf_link_def)
  show "sent_sum ?nm' ?sid l = sent_sum (fst maps) ?sid l"
  proof (cases "node_labels (fst maps) ?sid = None")
    case False
    then have "\<And>k. (node_labels ?nm' k \<noteq> None) = (node_labels (fst maps) k \<noteq> None)"
      using rec by auto
    then show ?thesis by (simp add: sent_sum_def counts_as_gift_def)
  next
    case True
    then have "map_get (fst maps) ?sid = None"
      using a by (auto simp: node_labels_def split: option.splits)
    then have "l_source l \<noteq> ?sid"
      using src by (auto simp: map_has_def map_get_def)
    then show ?thesis by (simp add: sent_sum_def)
  qed
  show "received_sum ?nm' t l = received_sum (fst maps) t l"
  proof (cases "node_labels (fst maps) ?sid = None")
    case False
    then have "\<And>k. (node_labels ?nm' k \<noteq> None) = (node_labels (fst maps) k \<noteq> None)"
      using rec by auto
    then show ?thesis by (simp add: received_sum_def counts_as_gift_def)
  next
    case True
    then have "map_get (fst maps) ?sid = None"
      using a by (auto simp: node_labels_def split: option.splits)
    then have "l_source l \<noteq> ?sid"
      using src by (auto simp: map_has_def map_get_def)
    then have "l_target l = t \<Longrightarrow> counts_as_gift ?nm' l = counts_as_gift (fst maps) l"
      using r rec by (auto simp: counts_as_gift_def)
    then show ?thesis by (auto simp: received_sum_def)
  qed
qed

lemma gift_step:
  assumes wf: "wf_maps maps" and k: "keyed l_key (snd maps)" and s: "truthy_id s"
    and a: "\<forall>n. map_get (fst maps) (account_id s) = Some n \<longrightarrow> is_account n"
    and r: "node_labels (fst maps) (account_id i) \<noteq> None"
  shows "weight (snd (merge_gift (account_id i) rs maps s)) (account_id s) (account_id i)
           = weight (snd maps) (account_id s) (account_id i) + 1"
    and "sum_list (map (sent_sum (fst (merge_gift (account_id i) rs maps s)) (account_id s))
                     (map_values (snd (merge_gift (account_id i) rs maps s))))
           = sum_list (map (sent_sum (fst maps) (account_id s)) (map_values (snd maps))) + 1"
    and "sum_list (map (received_sum (fst (merge_gift (account_id i) rs maps s)) (account_id i))
                     (map_values (snd (merge_gift (account_id i) rs maps s))))
           = sum_list (map (received_sum (fst maps) (account_id i)) (map_values (snd maps))) + 1"
proof -
  let ?sid = "account_id s" and ?rid = "account_id i"
  let ?m' = "merge_gift ?rid rs maps s"
  let ?key = "link_key ?sid ?rid"
  let ?w = "weight (snd maps) ?sid ?rid"
  let ?new = "case map_get (snd maps) ?key of
          None \<Rightarrow> \<lparr>l_source = ?sid, l_target = ?rid, l_value = Some 1, l_label = Some ''1 GIFT''\<rparr>
        | Some l \<Rightarrow>
            l\<lparr>l_value := Some ((case l_value l of None \<Rightarrow> 0 | Some n \<Rightarrow> n) + 1),
              l_label := Some (string_of_nat ((case l_value l of None \<Rightarrow> 0 | Some n \<Rightarrow> n) + 1)
                               @ '' GIFTS'')\<rparr>"
  have lm': "snd ?m' = map_set ?key ?new (snd maps)"
    by (rule snd_merge_gift [OF s])
  have rec_s: "node_labels (fst ?m') ?sid \<noteq> None"
    by (rule merge_gift_sender_account [OF s a])
  have rec_r: "node_labels (fst ?m') ?rid \<noteq> None"
    by (rule merge_gift_has_record [OF r])
  have counts: "\<And>l. l_source l = ?sid \<Longrightarrow> l_target l = ?rid \<Longrightarrow> counts_as_gift (fst ?m') l"
    using rec_s rec_r by (simp add: counts_as_gift_def account_id_not_channel)
  have ends: "l_source ?new = ?sid \<and> l_target ?new = ?rid \<and> link_count ?new = ?w + 1
        \<and> (case map_get (snd maps) ?key of
              None \<Rightarrow> ?w = 0
            | Some old \<Rightarrow> l_source old = ?sid \<and> l_target old = ?rid \<and> link_count old = ?w)"
  proof (cases "map_get (snd maps) ?key")
    case None
    then show ?thesis by (simp add: link_count_def weight_def)
  next
    case (Some old)
    have "wf_link (fst maps) old"
      by (rule wf_maps_lookup [OF wf Some])
    then obtain v where v: "l_value old = Some v" "0 < v" and ak: "account_key (l_source old)"
      by (auto simp: wf_link_def split: option.splits)
    have "l_key old = ?key"
      by (rule map_get_keyed [OF k Some])
    then have "l_source old = ?sid \<and> l_target old = ?rid"
      using link_key_inj [OF ak account_key_account_id] by blast
    then show ?thesis using Some v by (simp add: link_count_def weight_def)
  qed
  show "weight (snd ?m') ?sid ?rid = ?w + 1"
    unfolding lm' by (simp add: weight_def map_get_map_set split: option.splits)
  have d: "distinct (map fst (snd maps))" using k by (simp add: keyed_def)
  have sent_old: "sum_list (map (sent_sum (fst ?m') ?sid) (map_values (snd maps)))
          = sum_list (map (sent_sum (fst maps) ?sid) (map_values (snd maps)))"
    by (rule arg_cong [where f = sum_list], rule map_cong [OF refl])
       (rule old_links_count_alike(1) [OF wf s a r])
  have rcv_old: "sum_list (map (received_sum (fst ?m') ?rid) (map_values (snd maps)))
          = sum_list (map (received_sum (fst maps) ?rid) (map_values (snd maps)))"
    by (rule arg_cong [where f = sum_list], rule map_cong [OF refl])
       (rule old_links_count_alike(2) [OF wf s a r])
  have sent_new: "sent_sum (fst ?m') ?sid ?new = ?w + 1"
    and rcv_new: "received_sum (fst ?m') ?rid ?new = ?w + 1"
    using ends counts by (simp_all add: sent_sum_def received_sum_def)
  have sent_was: "(case map_of (snd maps) ?key of None \<Rightarrow> 0
                   | Some old \<Rightarrow> sent_sum (fst ?m') ?sid old) = ?w"
    and rcv_was: "(case map_of (snd maps) ?key of None \<Rightarrow> 0
                   | Some old \<Rightarrow> received_sum (fst ?m') ?rid old) = ?w"
    using ends counts
    by (auto simp: sent_sum_def received_sum_def map_get_def split: option.splits)
  show "sum_list (map (sent_sum (fst ?m') ?sid) (map_values (snd ?m')))
          = sum_list (map (sent_sum (fst maps) ?sid) (map_values (snd maps))) + 1"
    using sum_map_set [OF d, of "sent_sum (fst ?m') ?sid" ?key ?new]
    unfolding lm' sent_old sent_new sent_was by simp
  show "sum_list (map (received_sum (fst ?m') ?rid) (map_values (snd ?m')))
          = sum_list (map (received_sum (fst maps) ?rid) (map_values (snd maps))) + 1"
    using sum_map_set [OF d, of "received_sum (fst ?m') ?rid" ?key ?new]
    unfolding lm' rcv_old rcv_new rcv_was by simp
qed

lemma one_gift_not_Log: "\<forall>msg. one_gift i s rs \<noteq> Log msg"
  by (simp add: one_gift_def)

lemma merged_one_gift:
  "merged (one_gift i s rs) state = merge_gift (account_id i) rs (node_map state, link_map state) s"
  by (simp add: merged_def one_gift_def)

lemma gift_ready_sender:
  "gift_ready i s state \<Longrightarrow> \<forall>n. map_get (node_map state) (account_id s) = Some n \<longrightarrow> is_account n"
  by (auto simp: gift_ready_def)

lemma one_gift_state:
  assumes "gift_ready i s state"
  shows "gift_ready i s (processScanUpdate (one_gift i s rs) state)"
    and "weight (link_map (processScanUpdate (one_gift i s rs) state)) (account_id s) (account_id i)
           = weight (link_map state) (account_id s) (account_id i) + 1"
    and "sent_total (parsedUsers (processScanUpdate (one_gift i s rs) state)) (account_id s)
           = sent_total (parsedUsers state) (account_id s) + 1"
    and "received_total (parsedUsers (processScanUpdate (one_gift i s rs) state)) (account_id i)
           = received_total (parsedUsers state) (account_id i) + 1"
proof -
  let ?u = "one_gift i s rs"
  let ?maps = "(node_map state, link_map state)"
  let ?s' = "processScanUpdate ?u state"
  note nl = one_gift_not_Log [of i s rs]
  have wf: "wf_maps ?maps" and s: "truthy_id s"
    and r: "node_labels (fst ?maps) (account_id i) \<noteq> None"
    and p: "parsedUsers state = project (node_map state) (link_map state)"
    using assms by (simp_all add: gift_ready_def wf_state_def)
  have a: "\<forall>n. map_get (fst ?maps) (account_id s) = Some n \<longrightarrow> is_account n"
    using gift_ready_sender [OF assms] by simp
  have k: "keyed l_key (snd ?maps)" by (simp add: keyed_link_map)
  have nm': "node_map ?s' = fst (merge_gift (account_id i) rs ?maps s)"
    and lm': "link_map ?s' = snd (merge_gift (account_id i) rs ?maps s)"
    by (simp_all add: node_map_process [OF nl] link_map_process [OF nl] merged_one_gift)
  have p': "parsedUsers ?s' = project (node_map ?s') (link_map ?s')"
    using wf_state_process [of state ?u] assms by (simp add: gift_ready_def wf_state_def)
  have "node_labels (node_map ?s') (account_id s) \<noteq> None"
    unfolding nm' by (rule merge_gift_sender_account [OF s a])
  then have "case map_get (node_map ?s') (account_id s) of None \<Rightarrow> True | Some n \<Rightarrow> is_account n"
    unfolding node_labels_Some by auto
  moreover have "node_labels (node_map ?s') (account_id i) \<noteq> None"
    unfolding nm' by (rule merge_gift_has_record [OF r])
  moreover have "wf_state ?s'"
    using assms by (simp add: gift_ready_def wf_state_process)
  ultimately show "gift_ready i s ?s'"
    using s by (simp add: gift_ready_def)
  show "weight (link_map ?s') (account_id s) (account_id i)
          = weight (link_map state) (account_id s) (account_id i) + 1"
    unfolding lm' using gift_step(1) [OF wf k s a r, of rs] by simp
  have "sent_total (parsedUsers ?s') (account_id s)
          = sum_list (map (sent_sum (node_map ?s') (account_id s)) (map_values (link_map ?s')))"
    by (simp only: p' sent_total_project [OF keyed_node_map])
  moreover have "sent_total (parsedUsers state) (account_id s)
          = sum_list (map (sent_sum (node_map state) (account_id s)) (map_values (link_map state)))"
    by (simp only: p sent_total_project [OF keyed_node_map])
  ultimately show "sent_total (parsedUsers ?s') (account_id s)
          = sent_total (parsedUsers state) (account_id s) + 1"
    using gift_step(2) [OF wf k s a r, of rs] by (simp only: nm' lm' fst_conv snd_conv)
  have "received_total (parsedUsers ?s') (account_id i)
          = sum_list (map (received_sum (node_map ?s') (account_id i)) (map_values (link_map ?s')))"
    by (simp only: p' received_total_project [OF keyed_node_map])
  moreover have "received_total (parsedUsers state) (account_id i)
          = sum_list (map (received_sum (node_map state) (account_id i)) (map_values (link_map state)))"
    by (simp only: p received_total_project [OF keyed_node_map])
  ultimately show "received_total (parsedUsers ?s') (account_id i)
          = received_total (parsedUsers state) (account_id i) + 1"
    using gift_step(3) [OF wf k s a r, of rs] by (simp only: nm' lm' fst_conv snd_conv)
qed

lemma positive_weight_link:
  assumes "wf_state state" and "0 < weight (link_map state) (account_id s) t"
  shows "map (\<lambda>l. l_value l)
           (filter (\<lambda>l. l_source l = account_id s \<and> l_target l = t) (links (graphData state)))
         = [Some (weight (link_map state) (account_id s) t)]"
proof -
  let ?maps = "(node_map state, link_map state)"
  obtain l where l: "map_get (link_map state) (link_key (account_id s) t) = Some l"
    and v: "l_value l = Some (weight (link_map state) (account_id s) t)"
    using assms(2) by (auto simp: weight_def split: option.splits)
  have wf: "wf_maps ?maps" using assms(1) by (simp add: wf_state_def)
  have "distinct (map fst (map (\<lambda>l. (l_key l, l)) (links (graphData state))))"
    using assms(1) by (simp add: wf_state_def comp_def)
  then have "link_map state = map (\<lambda>l. (l_key l, l)) (links (graphData state))"
    unfolding link_map_def by (rule new_Map_distinct)
  then have "map_values (link_map state) = links (graphData state)"
    by (simp add: map_values_def comp_def)
  then have "filter (\<lambda>l. l_source l = account_id s \<and> l_target l = t) (links (graphData state)) = [l]"
    using the_link [OF wf _ account_key_account_id, of s t l] l by (simp add: keyed_link_map)
  then show ?thesis using v by simp
qed

lemma one_gift_weight:
  assumes "truthy_id s"
  shows "weight (link_map (processScanUpdate (one_gift i s rs) state)) (account_id s) (account_id i)
           = weight (link_map state) (account_id s) (account_id i) + 1"
  by (simp add: link_map_process [OF one_gift_not_Log] merged_one_gift snd_merge_gift [OF assms]
        weight_def map_get_map_set split: option.splits)

text \<open>
  C5 (as the code has it). In a well-formed store, applying the gift event of a sender
  S (with a sender id that is there and not 0) to a recipient R three times leaves
  exactly one link from S to R, whose weight is 3 more than before (0 for no link). If
  moreover R has an account record, and S has one or has no node yet, the projected
  total-sent of S and total-received of R are each 3 more than before (0 for no
  record).
\<close>

theorem gift_accumulation:
  assumes "wf_state state" and "truthy_id S"
  shows "map (\<lambda>l. l_value l)
           (filter (\<lambda>l. l_source l = account_id S \<and> l_target l = account_id R)
              (links (graphData ((processScanUpdate (one_gift R S rs) ^^ 3) state))))
           = [Some (weight (link_map state) (account_id S) (account_id R) + 3)]
       \<and> (node_labels (node_map state) (account_id R) \<noteq> None
            \<and> (case map_get (node_map state) (account_id S) of
                  None \<Rightarrow> True | Some n \<Rightarrow> is_account n) \<longrightarrow>
            sent_total (parsedUsers ((processScanUpdate (one_gift R S rs) ^^ 3) state)) (account_id S)
              = sent_total (parsedUsers state) (account_id S) + 3
            \<and> received_total (parsedUsers ((processScanUpdate (one_gift R S rs) ^^ 3) state))
                 (account_id R)
              = received_total (parsedUsers state) (account_id R) + 3)"
proof (intro conjI impI)
  let ?f = "processScanUpdate (one_gift R S rs)"
  let ?s1 = "?f state"
  let ?s2 = "?f ?s1"
  let ?s3 = "?f ?s2"
  have e: "(?f ^^ 3) state = ?s3" by (simp add: numeral_3_eq_3)
  have w: "weight (link_map ?s3) (account_id S) (account_id R)
             = weight (link_map state) (account_id S) (account_id R) + 3"
    by (simp add: one_gift_weight [OF assms(2)])
  have "wf_state ?s3" by (intro wf_state_process assms(1))
  then have "map (\<lambda>l. l_value l)
           (filter (\<lambda>l. l_source l = account_id S \<and> l_target l = account_id R)
              (links (graphData ?s3)))
           = [Some (weight (link_map ?s3) (account_id S) (account_id R))]"
    by (rule positive_weight_link) (simp add: w)
  then show "map (\<lambda>l. l_value l)
           (filter (\<lambda>l. l_source l = account_id S \<and> l_target l = account_id R)
              (links (graphData ((?f ^^ 3) state))))
           = [Some (weight (link_map state) (account_id S) (account_id R) + 3)]"
    unfolding e w .
  assume "node_labels (node_map state) (account_id R) \<noteq> None
            \<and> (case map_get (node_map state) (account_id S) of
                  None \<Rightarrow> True | Some n \<Rightarrow> is_account n)"
  then have r0: "gift_ready R S state"
    using assms by (simp add: gift_ready_def)
  have r1: "gift_ready R S ?s1" by (rule one_gift_state(1) [OF r0])
  have r2: "gift_ready R S ?s2" by (rule one_gift_state(1) [OF r1])
  show "sent_total (parsedUsers ((?f ^^ 3) state)) (account_id S)
           = sent_total (parsedUsers state) (account_id S) + 3"
    unfolding e
    by (simp add: one_gift_state(3) [OF r0] one_gift_state(3) [OF r1] one_gift_state(3) [OF r2])
  show "received_total (parsedUsers ((?f ^^ 3) state)) (account_id R)
           = received_total (parsedUsers state) (account_id R) + 3"
    unfolding e
    by (simp add: one_gift_state(4) [OF r0] one_gift_state(4) [OF r1] one_gift_state(4) [OF r2])
qed

lemma carol_found_wf: "wf_state carol_found"
  unfolding carol_found_def by (rule wf_state_process [OF wf_state_initial])

theorem gift_accumulation_witness:
  "map (\<lambda>l. l_value l)
     (filter (\<lambda>l. l_source l = account_id (IdNum 2) \<and> l_target l = account_id (IdNum 7))
        (links (graphData ((processScanUpdate (one_gift (IdNum 7) (IdNum 2) []) ^^ 3) carol_found))))
     = [Some (weight (link_map carol_found) (account_id (IdNum 2)) (account_id (IdNum 7)) + 3)]
   \<and> sent_total (parsedUsers ((processScanUpdate (one_gift (IdNum 7) (IdNum 2) []) ^^ 3) carol_found))
        (account_id (IdNum 2))
     = sent_total (parsedUsers carol_found) (account_id (IdNum 2)) + 3
   \<and> received_total (parsedUsers ((processScanUpdate (one_gift (IdNum 7) (IdNum 2) []) ^^ 3) carol_found))
        (account_id (IdNum 7))
     = received_total (parsedUsers carol_found) (account_id (IdNum 7)) + 3"
proof -
  have t: "truthy_id (IdNum 2)" by simp
  have r: "node_labels (node_map carol_found) (account_id (IdNum 7)) \<noteq> None
            \<and> (case map_get (node_map carol_found) (account_id (IdNum 2)) of
                  None \<Rightarrow> True | Some n \<Rightarrow> is_account n)"
    by code_simp
  show ?thesis
    using gift_accumulation [OF carol_found_wf t, of "IdNum 7" "[]"] r by blast
qed

text \<open>
  From the empty store the recipient has no node: the link gets weight 3, but the
  sender's total-sent stays 0 and the recipient has no record at all.
\<close>

theorem gift_accumulation_counterexample:
  "map (\<lambda>l. (l_source l, l_target l, l_value l))
     (links (graphData ((processScanUpdate (one_gift (IdNum 1) (IdNum 2) []) ^^ 3) initial_state)))
     = [(''u_2'', ''u_1'', Some 3)]
   \<and> map (\<lambda>r. (p_id r, totalGiftsSent r, totalGiftsReceived r))
       (parsedUsers ((processScanUpdate (one_gift (IdNum 1) (IdNum 2) []) ^^ 3) initial_state))
     = [(''u_2'', 0, 0)]"
  by code_simp

subsection \<open>Senders made by a gift\<close>

lemma gift_made_merge_gift: "gift_made k maps \<Longrightarrow> gift_made k (merge_gift t r maps s)"
  unfolding gift_made_def using merge_gift_get [of maps k _ t r s]
  by (fastforce simp: is_account_def)

lemma gift_made_link_channel: "gift_made k maps \<Longrightarrow> gift_made k (link_channel uid maps clink)"
  unfolding gift_made_def using link_channel_get [of maps k _ uid clink] by fastforce

lemma gift_made_merge_user:
  "k \<noteq> account_id (d_id d) \<Longrightarrow> gift_made k (m, lm) \<Longrightarrow> gift_made k (merge_user d m, lm')"
  by (simp add: gift_made_def merge_user_get_other)

lemma gift_made_new:
  assumes "truthy_id s" and "map_get (fst maps) (account_id s) = None"
  shows "gift_made (account_id s) (merge_gift t r maps s)"
  using assms
  by (simp add: gift_made_def merge_gift_def Let_def map_get_map_set is_account_def)

lemma gift_made_merge_update:
  assumes "\<not> observes u k" and "gift_made k maps"
  shows "gift_made k (merge_update u maps)"
proof (cases u)
  case (UserFound d)
  then show ?thesis
    using assms gift_made_merge_user [of k d "fst maps" "snd maps" "snd maps"] by auto
next
  case (UserDetail d)
  have "gift_made k (merge_user d (fst maps), snd maps)"
    using UserDetail assms gift_made_merge_user [of k d "fst maps" "snd maps" "snd maps"] by auto
  then show ?thesis
    using UserDetail
    by (auto split: option.splits intro: foldl_invariant gift_made_link_channel)
next
  case (UserGifts g)
  then show ?thesis
    using assms(2) by (auto intro: foldl_invariant gift_made_merge_gift)
qed (simp_all add: assms)

lemma gift_made_process:
  assumes "\<not> observes u k" and "gift_made k (node_map state, link_map state)"
  shows "gift_made k (node_map (processScanUpdate u state), link_map (processScanUpdate u state))"
proof (cases "\<exists>msg. u = Log msg")
  case True
  then show ?thesis using assms(2) by (auto simp: node_map_Log gift_made_def)
next
  case False
  then have nl: "\<forall>msg. u \<noteq> Log msg" by simp
  have "gift_made k (merged u state)"
    unfolding merged_def by (rule gift_made_merge_update [OF assms])
  then show ?thesis
    by (simp add: node_map_process [OF nl] gift_made_def)
qed

lemma run_invariant:
  assumes "\<And>st u. u \<in> set us \<Longrightarrow> P st \<Longrightarrow> P (processScanUpdate u st)"
  shows "P state \<Longrightarrow> P (run us state)"
  using assms unfolding run_def
  by (induction us arbitrary: state) simp_all

lemma wf_state_run: "wf_state state \<Longrightarrow> wf_state (run us state)"
  by (rule run_invariant) (rule wf_state_process)

lemma gift_made_run:
  assumes "\<forall>u \<in> set us. \<not> observes u k" and "gift_made k (node_map state, link_map state)"
  shows "gift_made k (node_map (run us state), link_map (run us state))"
proof -
  let ?P = "\<lambda>st. gift_made k (node_map st, link_map st)"
  have "\<And>st u. u \<in> set us \<Longrightarrow> ?P st \<Longrightarrow> ?P (processScanUpdate u st)"
    using assms(1) by (simp add: gift_made_process)
  then show ?thesis
    using assms(2) by (rule run_invariant [where P = ?P])
qed

text \<open>In a well-formed store, the record of an account node.\<close>

lemma wf_state_lookup:
  assumes "wf_state state" and "map_get (node_map state) k = Some n" and "is_account n"
  shows "filter (\<lambda>r. p_id r = k) (parsedUsers state)
           = [tally (node_map state) (map_values (link_map state)) n]"
proof -
  have "parsedUsers state = project (node_map state) (link_map state)"
    using assms(1) by (simp add: wf_state_def)
  then show ?thesis
    using assms(2,3) by (simp add: project_lookup [OF keyed_node_map])
qed

lemma gift_made_record:
  assumes "wf_state state" and "gift_made k (node_map state, link_map state)"
  shows "\<exists>r. filter (\<lambda>r. p_id r = k) (parsedUsers state) = [r]
             \<and> discoveredFrom r = Absent
             \<and> sourceType r =
                 (if \<exists>l \<in> set (map_values (link_map state)).
                       counts_as_gift (node_map state) l \<and> l_source l = k
                  then Gifter else Discovered)"
proof -
  obtain n where n: "map_get (node_map state) k = Some n" "n_isTarget n = None"
      "n_discoveredFrom n = Absent" "is_account n"
    using assms(2) by (auto simp: gift_made_def)
  have "n_id n = k"
    using map_get_keyed [OF keyed_node_map n(1)] .
  then show ?thesis
    using n by (simp add: wf_state_lookup [OF assms(1) n(1) n(4)] tally_fixed tally_sourceType)
qed

subsection \<open>What a gift event does to a new sender\<close>

lemma merge_gift_absent_or_made:
  assumes "map_get (fst maps) k = None \<or> gift_made k maps"
  shows "map_get (fst (merge_gift t r maps y)) k = None \<or> gift_made k (merge_gift t r maps y)"
proof (cases "gift_made k maps")
  case True
  then show ?thesis by (simp add: gift_made_merge_gift)
next
  case False
  then have n: "map_get (fst maps) k = None" using assms by simp
  show ?thesis
  proof (cases "truthy_id y \<and> k = account_id y")
    case True
    then show ?thesis using gift_made_new [of y maps t r] n by simp
  next
    case False
    then show ?thesis
      using n by (cases "truthy_id y") (simp_all add: merge_gift_get_other merge_gift_falsy)
  qed
qed

lemma merge_gift_makes:
  assumes "truthy_id s" and "map_get (fst maps) (account_id s) = None \<or> gift_made (account_id s) maps"
  shows "gift_made (account_id s) (merge_gift t r maps s)"
  using assms gift_made_new [of s maps t r] gift_made_merge_gift [of "account_id s" maps t r s]
  by blast

lemma map_has_link_merge_gift:
  "map_has (snd maps) k \<Longrightarrow> map_has (snd (merge_gift t r maps y)) k"
  by (cases "truthy_id y") (simp_all add: snd_merge_gift map_has_map_set merge_gift_falsy)

lemma map_has_link_new:
  "truthy_id s \<Longrightarrow> map_has (snd (merge_gift t r maps s)) (link_key (account_id s) t)"
  by (simp add: snd_merge_gift map_has_map_set)

lemma all_to_merge_gift:
  assumes "all_to k t maps"
  shows "all_to k t (merge_gift t r maps y)"
proof (cases "truthy_id y")
  case False
  then show ?thesis using assms by (simp add: merge_gift_falsy)
next
  case True
  let ?key = "link_key (account_id y) t"
  show ?thesis
  proof (cases "map_get (snd maps) ?key")
    case None
    then show ?thesis
      using assms values_map_set [of ?key _ "snd maps"]
      unfolding all_to_def snd_merge_gift [OF True] by fastforce
  next
    case (Some old)
    then have "old \<in> set (map_values (snd maps))"
      by (auto simp: map_get_def map_values_def dest!: map_of_SomeD) force
    then have "l_source old = k \<longrightarrow> l_target old = t"
      using assms by (simp add: all_to_def)
    then show ?thesis
      using assms Some values_map_set [of ?key _ "snd maps"]
      unfolding all_to_def snd_merge_gift [OF True] by fastforce
  qed
qed

lemma foldl_merge_gift_sender:
  assumes "s \<in> set ss" and "truthy_id s"
    and "map_get (fst maps) (account_id s) = None \<or> gift_made (account_id s) maps"
  shows "gift_made (account_id s) (foldl (merge_gift t r) maps ss)
       \<and> map_has (snd (foldl (merge_gift t r) maps ss)) (link_key (account_id s) t)"
  using assms(1,3)
proof (induction ss arbitrary: maps)
  case Nil
  then show ?case by simp
next
  case (Cons y ss)
  let ?P = "\<lambda>a. gift_made (account_id s) a \<and> map_has (snd a) (link_key (account_id s) t)"
  show ?case
  proof (cases "y = s")
    case True
    have "?P (merge_gift t r maps s)"
      using merge_gift_makes [OF assms(2) Cons.prems(2)] map_has_link_new [OF assms(2)] by simp
    then have "?P (foldl (merge_gift t r) (merge_gift t r maps s) ss)"
      by (rule foldl_invariant [where P = ?P, rotated])
         (simp add: gift_made_merge_gift map_has_link_merge_gift)
    then show ?thesis using True by simp
  next
    case False
    then have "s \<in> set ss" using Cons.prems(1) by simp
    then show ?thesis
      using Cons.IH [OF _ merge_gift_absent_or_made [OF Cons.prems(2)]] by simp
  qed
qed

lemma gifts_event_sender:
  assumes wf: "wf_state state" and s: "s \<in> set (gifts gd)" "truthy_id s"
    and n: "map_get (node_map state) (account_id s) = None"
  shows "gift_made (account_id s) (merged (UserGifts gd) state)"
    and "(\<exists>l \<in> set (map_values (snd (merged (UserGifts gd) state))).
            counts_as_gift (fst (merged (UserGifts gd) state)) l \<and> l_source l = account_id s)
         = (node_labels (fst (merged (UserGifts gd) state)) (account_id (user_id gd)) \<noteq> None)"
proof -
  let ?sid = "account_id s" and ?rid = "account_id (user_id gd)"
  let ?maps = "(node_map state, link_map state)"
  let ?m = "merged (UserGifts gd) state"
  have m: "?m = foldl (merge_gift ?rid (resolved_users gd)) ?maps (gifts gd)"
    by (simp add: merged_def)
  have wf0: "wf_maps ?maps" using wf by (simp add: wf_state_def)
  have made: "gift_made ?sid ?m" and has: "map_has (snd ?m) (link_key ?sid ?rid)"
    unfolding m using foldl_merge_gift_sender [OF s, of ?maps ?rid "resolved_users gd"] n by simp_all
  show "gift_made ?sid ?m" by (rule made)
  have "all_to ?sid ?rid ?maps"
    using wf0 n by (auto simp: all_to_def wf_maps_def list_all_iff wf_link_def map_has_def map_get_def)
  then have to: "all_to ?sid ?rid ?m"
    unfolding m by (rule foldl_invariant [rotated]) (rule all_to_merge_gift)
  have wfm: "wf_maps ?m"
    unfolding merged_def by (rule wf_maps_merge_update) (simp add: wf0)
  have k: "keyed l_key (snd ?m)"
    using keyed_merged [of "UserGifts gd" state] by (simp add: keyed_maps_def)
  have rec_s: "node_labels (fst ?m) ?sid \<noteq> None"
    using made unfolding node_labels_Some gift_made_def by blast
  show "(\<exists>l \<in> set (map_values (snd ?m)). counts_as_gift (fst ?m) l \<and> l_source l = ?sid)
         = (node_labels (fst ?m) ?rid \<noteq> None)"
  proof (cases "node_labels (fst ?m) ?rid = None")
    case True
    have "\<not> counts_as_gift (fst ?m) l" if "l \<in> set (map_values (snd ?m))" "l_source l = ?sid" for l
      using that to True by (simp add: all_to_def counts_as_gift_def)
    then show ?thesis using True by blast
  next
    case False
    obtain l where l: "map_get (snd ?m) (link_key ?sid ?rid) = Some l"
      using has by (auto simp: map_has_def map_get_def)
    then have "filter (\<lambda>l. l_source l = ?sid \<and> l_target l = ?rid) (map_values (snd ?m)) = [l]"
      by (rule the_link [OF wfm k account_key_account_id])
    then have "l \<in> set (filter (\<lambda>l. l_source l = ?sid \<and> l_target l = ?rid) (map_values (snd ?m)))"
      by simp
    then have "l \<in> set (map_values (snd ?m))" "l_source l = ?sid" "l_target l = ?rid"
      by simp_all
    moreover from this have "counts_as_gift (fst ?m) l"
      using False rec_s by (simp add: counts_as_gift_def account_id_not_channel)
    ultimately show ?thesis using False by blast
  qed
qed

text \<open>
  C10 (as the code has it). In a well-formed store, let a gift event create the node of
  a sender S. Right after the event S has exactly one record; its discovered-via field
  is absent, and its role is gifter when the recipient of the event has an account
  record and discovered when it has none. As long as no account event for S arrives,
  S keeps exactly one record, without discovered-via value and never with role target.
\<close>

theorem gift_made_sender_role:
  assumes "wf_state state" and "s \<in> set (gifts gd)" and "truthy_id s"
    and "map_get (node_map state) (account_id s) = None"
    and "\<forall>u \<in> set us. \<not> observes u (account_id s)"
  shows "(\<exists>r. filter (\<lambda>r. p_id r = account_id s)
                 (parsedUsers (processScanUpdate (UserGifts gd) state)) = [r]
              \<and> discoveredFrom r = Absent
              \<and> sourceType r =
                  (if node_labels (node_map (processScanUpdate (UserGifts gd) state))
                        (account_id (user_id gd)) \<noteq> None
                   then Gifter else Discovered))
       \<and> (\<exists>r. filter (\<lambda>r. p_id r = account_id s)
                 (parsedUsers (run us (processScanUpdate (UserGifts gd) state))) = [r]
              \<and> discoveredFrom r = Absent
              \<and> sourceType r \<noteq> Target)"
proof
  let ?u = "UserGifts gd"
  let ?s' = "processScanUpdate ?u state"
  let ?sid = "account_id s"
  have nl: "\<forall>msg. ?u \<noteq> Log msg" by simp
  have wf': "wf_state ?s'" by (rule wf_state_process [OF assms(1)])
  have maps: "node_map ?s' = fst (merged ?u state)" "link_map ?s' = snd (merged ?u state)"
    by (simp_all add: node_map_process [OF nl] link_map_process [OF nl])
  have made: "gift_made ?sid (node_map ?s', link_map ?s')"
    using gifts_event_sender(1) [OF assms(1-4)] by (simp add: maps)
  have gifts: "(\<exists>l \<in> set (map_values (link_map ?s')). counts_as_gift (node_map ?s') l \<and> l_source l = ?sid)
         = (node_labels (node_map ?s') (account_id (user_id gd)) \<noteq> None)"
    using gifts_event_sender(2) [OF assms(1-4)] by (simp only: maps)
  show "\<exists>r. filter (\<lambda>r. p_id r = ?sid) (parsedUsers ?s') = [r]
              \<and> discoveredFrom r = Absent
              \<and> sourceType r =
                  (if node_labels (node_map ?s') (account_id (user_id gd)) \<noteq> None
                   then Gifter else Discovered)"
    using gift_made_record [OF wf' made] by (simp only: gifts)
  have "gift_made ?sid (node_map (run us ?s'), link_map (run us ?s'))"
    by (rule gift_made_run [OF assms(5) made])
  then obtain r where "filter (\<lambda>r. p_id r = ?sid) (parsedUsers (run us ?s')) = [r]"
    and "discoveredFrom r = Absent"
    and "sourceType r = Gifter \<or> sourceType r = Discovered"
    using gift_made_record [OF wf_state_run [OF wf', of us]] by metis
  then show "\<exists>r. filter (\<lambda>r. p_id r = ?sid) (parsedUsers (run us ?s')) = [r]
              \<and> discoveredFrom r = Absent \<and> sourceType r \<noteq> Target"
    by auto
qed

lemma alice_found_wf: "wf_state alice_found"
  unfolding alice_found_def by (rule wf_state_process [OF wf_state_initial])

lemma alice_found_no_sender: "map_get (node_map alice_found) (account_id (IdNum 2)) = None"
  by code_simp

theorem gift_made_sender_role_witness:
  "(\<exists>r. filter (\<lambda>r. p_id r = account_id (IdNum 2))
           (parsedUsers (processScanUpdate (UserGifts gift_2_to_1) alice_found)) = [r]
        \<and> discoveredFrom r = Absent
        \<and> sourceType r =
            (if node_labels (node_map (processScanUpdate (UserGifts gift_2_to_1) alice_found))
                  (account_id (user_id gift_2_to_1)) \<noteq> None
             then Gifter else Discovered))
   \<and> (\<exists>r. filter (\<lambda>r. p_id r = account_id (IdNum 2))
           (parsedUsers (run [Log ''found'', UserGifts gift_7_to_1, UserFound found_via]
                           (processScanUpdate (UserGifts gift_2_to_1) alice_found))) = [r]
        \<and> discoveredFrom r = Absent
        \<and> sourceType r \<noteq> Target)"
proof (rule gift_made_sender_role [OF alice_found_wf _ _ alice_found_no_sender])
  show "IdNum 2 \<in> set (gifts gift_2_to_1)" by (simp add: gift_2_to_1_def)
  show "truthy_id (IdNum 2)" by simp
  have "account_id (d_id found_via) \<noteq> account_id (IdNum 2)" by code_simp
  then show "\<forall>u \<in> set [Log ''found'', UserGifts gift_7_to_1, UserFound found_via].
          \<not> observes u (account_id (IdNum 2))"
    by simp
qed

text \<open>
  A sender made by a gift whose recipient has no node is projected as discovered, not
  as gifter.
\<close>

theorem gift_sender_role_counterexample:
  "map (\<lambda>n. (n_id n, n_group n, n_isTarget n)) (nodes (graphData (processScanUpdate (UserGifts gift_2_to_1) initial_state)))
     = [(''u_2'', ''potential_gifter'', None)]
   \<and> map (\<lambda>r. (p_id r, sourceType r, totalGiftsSent r))
       (parsedUsers (processScanUpdate (UserGifts gift_2_to_1) initial_state))
     = [(''u_2'', Discovered, 0)]"
  by code_simp

subsection \<open>Provenance and role under later events\<close>
















end
